theory Spec2Isabelle
  imports Main "HOL-Library.Word"
begin

section \<open>Strings of UTF-16 code units\<close>

text \<open>
  The source is JavaScript (\<^verbatim>\<open>src/js/series-manager.js\<close>): a string is a sequence of
  16-bit code units, and every regular expression of the file works on code units (none has
  the \<^verbatim>\<open>u\<close> flag). Characters are written by their code: \<^verbatim>\<open>0x5DFB\<close> is the
  ideograph of "volume", \<^verbatim>\<open>0x7B2C\<close> the ordinal prefix, and so on.
\<close>

type_synonym char16 = "16 word"
type_synonym jsstring = "char16 list"

text \<open>The class \<^verbatim>\<open>\s\<close> of ECMAScript (white space and line terminators); \<^verbatim>\<open>trim\<close> strips
  the same set.\<close>

definition isWhiteSpace :: "char16 \<Rightarrow> bool" where
  "isWhiteSpace c \<longleftrightarrow>
     c = 0x09 \<or> c = 0x0A \<or> c = 0x0B \<or> c = 0x0C \<or> c = 0x0D \<or> c = 0x20 \<or> c = 0xA0 \<or>
     c = 0x1680 \<or> (0x2000 \<le> c \<and> c \<le> 0x200A) \<or> c = 0x2028 \<or> c = 0x2029 \<or>
     c = 0x202F \<or> c = 0x205F \<or> c = 0x3000 \<or> c = 0xFEFF"

text \<open>The line terminators, which \<^verbatim>\<open>.\<close> does not match.\<close>

definition isLineTerminator :: "char16 \<Rightarrow> bool" where
  "isLineTerminator c \<longleftrightarrow> c = 0x0A \<or> c = 0x0D \<or> c = 0x2028 \<or> c = 0x2029"

text \<open>The class \<^verbatim>\<open>\d\<close>.\<close>

definition isDigit :: "char16 \<Rightarrow> bool" where
  "isDigit c \<longleftrightarrow> 0x30 \<le> c \<and> c \<le> 0x39"

text \<open>\<^verbatim>\<open>String.prototype.trim\<close>.\<close>

definition trim :: "jsstring \<Rightarrow> jsstring" where
  "trim s = rev (dropWhile isWhiteSpace (rev (dropWhile isWhiteSpace s)))"

text \<open>\<^verbatim>\<open>s.replace(/x/g, 'y')\<close> for one character \<^verbatim>\<open>x\<close>, and
  \<^verbatim>\<open>s.replace(/[abc]/g, 'y')\<close> for a class of characters: what becomes of one code unit,
  and of the string.\<close>

definition substChar :: "char16 \<Rightarrow> char16 \<Rightarrow> char16 \<Rightarrow> char16" where
  "substChar x y c = (if c = x then y else c)"

definition substChars :: "char16 list \<Rightarrow> char16 \<Rightarrow> char16 \<Rightarrow> char16" where
  "substChars xs y c = (if c \<in> set xs then y else c)"

definition replaceChar :: "char16 \<Rightarrow> char16 \<Rightarrow> jsstring \<Rightarrow> jsstring" where
  "replaceChar x y s = map (substChar x y) s"

definition replaceChars :: "char16 list \<Rightarrow> char16 \<Rightarrow> jsstring \<Rightarrow> jsstring" where
  "replaceChars xs y s = map (substChars xs y) s"

text \<open>The replacement function of the first rule of \<^verbatim>\<open>normalizeString\<close>: a full-width
  letter or digit (\<^verbatim>\<open>[\uFF21-\uFF3A\uFF41-\uFF5A\uFF10-\uFF19]\<close>) is moved down by
  \<^verbatim>\<open>0xFEE0\<close>.\<close>

definition toHalfWidth :: "char16 \<Rightarrow> char16" where
  "toHalfWidth c =
     (if (0xFF21 \<le> c \<and> c \<le> 0xFF3A) \<or> (0xFF41 \<le> c \<and> c \<le> 0xFF5A) \<or> (0xFF10 \<le> c \<and> c \<le> 0xFF19)
      then c - 0xFEE0 else c)"

text \<open>\<^verbatim>\<open>s.replace(/\s+/g, ' ')\<close>: every maximal run of white space becomes one space.\<close>

function replaceSpaceRuns :: "jsstring \<Rightarrow> jsstring" where
  "replaceSpaceRuns [] = []"
| "replaceSpaceRuns (c # cs) =
     (if isWhiteSpace c then 0x20 # replaceSpaceRuns (dropWhile isWhiteSpace cs)
      else c # replaceSpaceRuns cs)"
  by pat_completeness auto
termination
  by (relation "measure length") (auto simp: length_dropWhile_le less_Suc_eq_le)

text \<open>\<^verbatim>\<open>normalizeString\<close> (lines 121-156): the replacements in the order of the source.\<close>

definition normalizeString :: "jsstring \<Rightarrow> jsstring" where
  "normalizeString str =
     (if str = [] then []
      else
        let s = map toHalfWidth str;
            s = replaceChar 0xFF08 0x28 s;
            s = replaceChar 0xFF09 0x29 s;
            s = replaceChar 0x3010 0x5B s;
            s = replaceChar 0x3011 0x5D s;
            s = replaceChar 0x300C 0x5B s;
            s = replaceChar 0x300D 0x5D s;
            s = replaceChar 0x3000 0x20 s;
            s = replaceChar 0xFF1A 0x3A s;
            s = replaceChar 0xFF1B 0x3B s;
            s = replaceChars [0xFF0D, 0x2015, 0x2500, 0x30FC, 0x2212] 0x2D s;
            s = replaceChars [0xFF5E, 0x301C] 0x7E s;
            s = replaceChar 0xFF01 0x21 s;
            s = replaceChar 0xFF1F 0x3F s;
            s = replaceChar 0xFF06 0x26 s;
            s = replaceChar 0xFF0A 0x2A s;
            s = replaceChar 0xFF0B 0x2B s;
            s = replaceChar 0xFF0C 0x2C s;
            s = replaceChar 0xFF0E 0x2E s;
            s = replaceSpaceRuns s
        in trim s)"

section \<open>Regular expressions\<close>

text \<open>
  Every pattern of the source is anchored at both ends (\<^verbatim>\<open>^ ... $\<close>, no \<^verbatim>\<open>m\<close> flag), is a
  sequence of single-character classes under a quantifier, and has capture groups that are
  neither nested nor quantified. A pattern is therefore a list of items, and matching is the
  backtracking search of ECMAScript: a greedy quantifier tries the longer match first, the
  lazy \<^verbatim>\<open>+?\<close> the shorter one, and the first alternative that reaches the end of the input
  with the pattern used up wins.
\<close>

datatype cclass =
    Dot                    \<comment> \<open>\<^verbatim>\<open>.\<close>\<close>
  | WS                     \<comment> \<open>\<^verbatim>\<open>\s\<close>\<close>
  | NonWS                  \<comment> \<open>\<^verbatim>\<open>\S\<close>\<close>
  | Digit                  \<comment> \<open>\<^verbatim>\<open>\d\<close>\<close>
  | NonDigitWS             \<comment> \<open>\<^verbatim>\<open>[^\d\s]\<close>\<close>
  | Chr char16             \<comment> \<open>one character\<close>
  | Alt "char16 list"      \<comment> \<open>\<^verbatim>\<open>[ab]\<close>, \<^verbatim>\<open>(a|b)\<close> of single characters\<close>

fun cmatches :: "cclass \<Rightarrow> char16 \<Rightarrow> bool" where
  "cmatches Dot c = (\<not> isLineTerminator c)"
| "cmatches WS c = isWhiteSpace c"
| "cmatches NonWS c = (\<not> isWhiteSpace c)"
| "cmatches Digit c = isDigit c"
| "cmatches NonDigitWS c = (\<not> isDigit c \<and> \<not> isWhiteSpace c)"
| "cmatches (Chr x) c = (c = x)"
| "cmatches (Alt xs) c = (c \<in> set xs)"

datatype quant =
    Once
  | Opt                    \<comment> \<open>\<^verbatim>\<open>?\<close>\<close>
  | Star                   \<comment> \<open>\<^verbatim>\<open>*\<close>\<close>
  | Plus                   \<comment> \<open>\<^verbatim>\<open>+\<close>\<close>
  | PlusLazy               \<comment> \<open>\<^verbatim>\<open>+?\<close>\<close>
  | StarLazy               \<comment> \<open>\<^verbatim>\<open>*?\<close>, what is left of \<^verbatim>\<open>+?\<close> after its first character\<close>

datatype item = Atom cclass quant | GOpen | GClose

text \<open>
  \<open>rmatch items s i caps\<close>: \<open>s\<close> is the input that is left, \<open>i\<close> the number of code
  units consumed so far, \<open>caps\<close> the groups opened so far (last first) as pairs of start
  and end index.
\<close>

fun rmatch :: "item list \<Rightarrow> jsstring \<Rightarrow> nat \<Rightarrow> (nat \<times> nat) list \<Rightarrow> (nat \<times> nat) list option" where
  "rmatch [] s i caps = (if s = [] then Some (rev caps) else None)"
| "rmatch (GOpen # r) s i caps = rmatch r s i ((i, i) # caps)"
| "rmatch (GClose # r) s i caps =
     (case caps of [] \<Rightarrow> None | (a, _) # cs \<Rightarrow> rmatch r s i ((a, i) # cs))"
| "rmatch (Atom k Once # r) s i caps =
     (case s of [] \<Rightarrow> None
      | c # cs \<Rightarrow> if cmatches k c then rmatch r cs (Suc i) caps else None)"
| "rmatch (Atom k Opt # r) s i caps =
     (case s of [] \<Rightarrow> rmatch r s i caps
      | c # cs \<Rightarrow>
          if cmatches k c
          then (case rmatch r cs (Suc i) caps of Some m \<Rightarrow> Some m | None \<Rightarrow> rmatch r s i caps)
          else rmatch r s i caps)"
| "rmatch (Atom k Star # r) s i caps =
     (case s of [] \<Rightarrow> rmatch r s i caps
      | c # cs \<Rightarrow>
          if cmatches k c
          then (case rmatch (Atom k Star # r) cs (Suc i) caps of
                  Some m \<Rightarrow> Some m
                | None \<Rightarrow> rmatch r s i caps)
          else rmatch r s i caps)"
| "rmatch (Atom k Plus # r) s i caps =
     (case s of [] \<Rightarrow> None
      | c # cs \<Rightarrow> if cmatches k c then rmatch (Atom k Star # r) cs (Suc i) caps else None)"
| "rmatch (Atom k PlusLazy # r) s i caps =
     (case s of [] \<Rightarrow> None
      | c # cs \<Rightarrow> if cmatches k c then rmatch (Atom k StarLazy # r) cs (Suc i) caps else None)"
| "rmatch (Atom k StarLazy # r) s i caps =
     (case rmatch r s i caps of
        Some m \<Rightarrow> Some m
      | None \<Rightarrow>
          (case s of [] \<Rightarrow> None
           | c # cs \<Rightarrow>
               if cmatches k c then rmatch (Atom k StarLazy # r) cs (Suc i) caps else None))"

text \<open>\<^verbatim>\<open>s.match(pattern)\<close>: \<open>None\<close> is \<^verbatim>\<open>null\<close>; otherwise the match array, the whole
  match at index 0 and the groups after it.\<close>

definition regexMatch :: "item list \<Rightarrow> jsstring \<Rightarrow> jsstring list option" where
  "regexMatch p s =
     (case rmatch p s 0 [] of
        None \<Rightarrow> None
      | Some caps \<Rightarrow> Some (s # map (\<lambda>(a, b). take (b - a) (drop a s)) caps))"

section \<open>Volume extraction\<close>

text \<open>The pattern list of \<^verbatim>\<open>extractVolumeNumber\<close> (lines 172-205), in the order of the
  source. The fifth pattern has the \<^verbatim>\<open>i\<close> flag: its letters match in either case.\<close>

text \<open>
  The patterns, numbered in the order of the source:
  \<^enum> \<^verbatim>\<open>/^(.+?)\s*\(?\u7B2C?(\d+)\u5DFB\)?\s*$/\<close>
  \<^enum> \<^verbatim>\<open>/^(.+?)\s+\u7B2C?(\d+)\u5DFB\s*.*$/\<close>
  \<^enum> \<^verbatim>\<open>/^(.+?)\s*\u7B2C(\d+)\u5DFB\s*$/\<close>
  \<^enum> \<^verbatim>\<open>/^(.+?)\s+\u7B2C(\d+)\u8A71.+$/\<close>
  \<^enum> \<^verbatim>\<open>/^(.+?)\s*\(?Vol\.?\s*(\d+)\)?\s*$/i\<close>
  \<^enum> \<^verbatim>\<open>/^(.+?)\s+\u5206\u518A\u7248(\d+)\s*$/\<close>
  \<^enum> \<^verbatim>\<open>/^(.+?)\s*:\s*(\d+)\s+.+$/\<close>
  \<^enum> \<^verbatim>\<open>/^(.+?)\((\d+)\)\s+\(.+\)\s*$/\<close>
  \<^enum> \<^verbatim>\<open>/^(.+?)\((\d+)\)\s+.+$/\<close>
  \<^enum> \<^verbatim>\<open>/^(.+?)\((\d+)\)\S.+$/\<close>
  \<^enum> \<^verbatim>\<open>/^(.+?[^\d\s])(\d+)\s+.+\s*\(.+\)\s*$/\<close>
  \<^enum> \<^verbatim>\<open>/^(.+?)\s*\((\d+)\)\s*$/\<close>
  \<^enum> \<^verbatim>\<open>/^(.+?)\s+(\d+)\s*\(.+\)\s*$/\<close>
  \<^enum> \<^verbatim>\<open>/^(.+?)\s+(\d+)\s*$/\<close>
  \<^enum> \<^verbatim>\<open>/^(.+?\))(\d+)$/\<close>
  \<^enum> \<^verbatim>\<open>/^(.+?)\s*\(?(\u4E0A|\u4E2D|\u4E0B)\)?\s*$/\<close>
  \<^enum> \<^verbatim>\<open>/^(.+?)\s+(\u4E00|\u4E8C|\u4E09|\u56DB|\u4E94|\u516D|\u4E03|\u516B|\u4E5D|\u5341)[\u30CE\u306E]\u5DFB\s*$/\<close>
\<close>

definition patterns :: "item list list" where
  "patterns = [
     \<comment> \<open>pattern 1\<close>
     [GOpen, Atom Dot PlusLazy, GClose, Atom WS Star, Atom (Chr 0x28) Opt, Atom (Chr 0x7B2C) Opt,
      GOpen, Atom Digit Plus, GClose, Atom (Chr 0x5DFB) Once, Atom (Chr 0x29) Opt, Atom WS Star],
     \<comment> \<open>pattern 2\<close>
     [GOpen, Atom Dot PlusLazy, GClose, Atom WS Plus, Atom (Chr 0x7B2C) Opt,
      GOpen, Atom Digit Plus, GClose, Atom (Chr 0x5DFB) Once, Atom WS Star, Atom Dot Star],
     \<comment> \<open>pattern 3\<close>
     [GOpen, Atom Dot PlusLazy, GClose, Atom WS Star, Atom (Chr 0x7B2C) Once,
      GOpen, Atom Digit Plus, GClose, Atom (Chr 0x5DFB) Once, Atom WS Star],
     \<comment> \<open>pattern 4\<close>
     [GOpen, Atom Dot PlusLazy, GClose, Atom WS Plus, Atom (Chr 0x7B2C) Once,
      GOpen, Atom Digit Plus, GClose, Atom (Chr 0x8A71) Once, Atom Dot Plus],
     \<comment> \<open>pattern 5\<close>
     [GOpen, Atom Dot PlusLazy, GClose, Atom WS Star, Atom (Chr 0x28) Opt,
      Atom (Alt [0x56, 0x76]) Once, Atom (Alt [0x6F, 0x4F]) Once, Atom (Alt [0x6C, 0x4C]) Once,
      Atom (Chr 0x2E) Opt, Atom WS Star, GOpen, Atom Digit Plus, GClose, Atom (Chr 0x29) Opt,
      Atom WS Star],
     \<comment> \<open>pattern 6\<close>
     [GOpen, Atom Dot PlusLazy, GClose, Atom WS Plus, Atom (Chr 0x5206) Once,
      Atom (Chr 0x518A) Once, Atom (Chr 0x7248) Once, GOpen, Atom Digit Plus, GClose,
      Atom WS Star],
     \<comment> \<open>pattern 7\<close>
     [GOpen, Atom Dot PlusLazy, GClose, Atom WS Star, Atom (Chr 0x3A) Once, Atom WS Star,
      GOpen, Atom Digit Plus, GClose, Atom WS Plus, Atom Dot Plus],
     \<comment> \<open>pattern 8\<close>
     [GOpen, Atom Dot PlusLazy, GClose, Atom (Chr 0x28) Once, GOpen, Atom Digit Plus, GClose,
      Atom (Chr 0x29) Once, Atom WS Plus, Atom (Chr 0x28) Once, Atom Dot Plus,
      Atom (Chr 0x29) Once, Atom WS Star],
     \<comment> \<open>pattern 9\<close>
     [GOpen, Atom Dot PlusLazy, GClose, Atom (Chr 0x28) Once, GOpen, Atom Digit Plus, GClose,
      Atom (Chr 0x29) Once, Atom WS Plus, Atom Dot Plus],
     \<comment> \<open>pattern 10\<close>
     [GOpen, Atom Dot PlusLazy, GClose, Atom (Chr 0x28) Once, GOpen, Atom Digit Plus, GClose,
      Atom (Chr 0x29) Once, Atom NonWS Once, Atom Dot Plus],
     \<comment> \<open>pattern 11\<close>
     [GOpen, Atom Dot PlusLazy, Atom NonDigitWS Once, GClose, GOpen, Atom Digit Plus, GClose,
      Atom WS Plus, Atom Dot Plus, Atom WS Star, Atom (Chr 0x28) Once, Atom Dot Plus,
      Atom (Chr 0x29) Once, Atom WS Star],
     \<comment> \<open>pattern 12\<close>
     [GOpen, Atom Dot PlusLazy, GClose, Atom WS Star, Atom (Chr 0x28) Once,
      GOpen, Atom Digit Plus, GClose, Atom (Chr 0x29) Once, Atom WS Star],
     \<comment> \<open>pattern 13\<close>
     [GOpen, Atom Dot PlusLazy, GClose, Atom WS Plus, GOpen, Atom Digit Plus, GClose,
      Atom WS Star, Atom (Chr 0x28) Once, Atom Dot Plus, Atom (Chr 0x29) Once, Atom WS Star],
     \<comment> \<open>pattern 14\<close>
     [GOpen, Atom Dot PlusLazy, GClose, Atom WS Plus, GOpen, Atom Digit Plus, GClose,
      Atom WS Star],
     \<comment> \<open>pattern 15\<close>
     [GOpen, Atom Dot PlusLazy, Atom (Chr 0x29) Once, GClose, GOpen, Atom Digit Plus, GClose],
     \<comment> \<open>pattern 16\<close>
     [GOpen, Atom Dot PlusLazy, GClose, Atom WS Star, Atom (Chr 0x28) Opt,
      GOpen, Atom (Alt [0x4E0A, 0x4E2D, 0x4E0B]) Once, GClose, Atom (Chr 0x29) Opt,
      Atom WS Star],
     \<comment> \<open>pattern 17\<close>
     [GOpen, Atom Dot PlusLazy, GClose, Atom WS Plus,
      GOpen, Atom (Alt [0x4E00, 0x4E8C, 0x4E09, 0x56DB, 0x4E94, 0x516D, 0x4E03, 0x516B, 0x4E5D,
                        0x5341]) Once, GClose,
      Atom (Alt [0x30CE, 0x306E]) Once, Atom (Chr 0x5DFB) Once, Atom WS Star]
   ]"

text \<open>The two prefix patterns (lines 208 and 217):
  \<^verbatim>\<open>/^\u756A\u5916\u7DE8(\d+)\u5DFB\s+(.+)$/\<close> and \<^verbatim>\<open>/^(\d+)[~\-]\d+\s+(.+)$/\<close>.\<close>

definition prefixVolumePattern :: "item list" where
  "prefixVolumePattern =
     [Atom (Chr 0x756A) Once, Atom (Chr 0x5916) Once, Atom (Chr 0x7DE8) Once,
      GOpen, Atom Digit Plus, GClose, Atom (Chr 0x5DFB) Once, Atom WS Plus,
      GOpen, Atom Dot Plus, GClose]"

definition prefixRangePattern :: "item list" where
  "prefixRangePattern =
     [GOpen, Atom Digit Plus, GClose, Atom (Alt [0x7E, 0x2D]) Once, Atom Digit Plus,
      Atom WS Plus, GOpen, Atom Dot Plus, GClose]"

text \<open>
  A JavaScript number is a double. The numbers of this program are integers that are not
  negative, or \<^verbatim>\<open>Infinity\<close>, and are written here by their value, an \<open>int\<close>; the value
  \<open>2 ^ 1024\<close>, which no double has, stands for \<^verbatim>\<open>Infinity\<close>. \<open>roundToDouble n\<close> is the double
  nearest to \<open>n\<close>, the even one of two that are equally near (53 significant bits), and
  \<open>toNumber n\<close> the number value of \<open>n\<close>: at \<open>2 ^ 1024\<close> the rounding overflows to
  \<^verbatim>\<open>Infinity\<close>.
\<close>

fun bitLength :: "nat \<Rightarrow> nat" where
  "bitLength n = (if n = 0 then 0 else Suc (bitLength (n div 2)))"

definition roundToDouble :: "int \<Rightarrow> int" where
  "roundToDouble n =
     (if n < 2 ^ 53 then n
      else
        let e = bitLength (nat n) - 53;
            q = n div 2 ^ e;
            r = n mod 2 ^ e
        in if 2 ^ e < 2 * r \<or> (2 * r = 2 ^ e \<and> odd q) then (q + 1) * 2 ^ e else q * 2 ^ e)"

definition toNumber :: "int \<Rightarrow> int" where
  "toNumber n = min (roundToDouble n) (2 ^ 1024)"

text \<open>\<^verbatim>\<open>parseInt(s, 10)\<close> on a string of decimal digits, which is what every \<^verbatim>\<open>(\d+)\<close>
  group captures: the number value of the integer that the digits denote. (ECMAScript lets
  an engine read the digits after the twentieth as zeros; the engines in use do not.)\<close>

definition parseInt10 :: "jsstring \<Rightarrow> int" where
  "parseInt10 s = toNumber (foldl (\<lambda>n c. 10 * n + uint (c - 0x30)) 0 s)"

text \<open>The table \<^verbatim>\<open>kanjiToNumber\<close> (lines 232-236).\<close>

definition kanjiToNumber :: "jsstring \<Rightarrow> int option" where
  "kanjiToNumber k =
     (if k = [0x4E0A] then Some 1 else if k = [0x4E2D] then Some 2
      else if k = [0x4E0B] then Some 3
      else if k = [0x4E00] then Some 1 else if k = [0x4E8C] then Some 2
      else if k = [0x4E09] then Some 3 else if k = [0x56DB] then Some 4
      else if k = [0x4E94] then Some 5 else if k = [0x516D] then Some 6
      else if k = [0x4E03] then Some 7 else if k = [0x516B] then Some 8
      else if k = [0x4E5D] then Some 9 else if k = [0x5341] then Some 10
      else None)"

text \<open>The loop over the patterns (line 225): the first pattern that matches.\<close>

fun firstMatch :: "item list list \<Rightarrow> jsstring \<Rightarrow> jsstring list option" where
  "firstMatch [] s = None"
| "firstMatch (p # ps) s =
     (case regexMatch p s of Some m \<Rightarrow> Some m | None \<Rightarrow> firstMatch ps s)"

text \<open>\<^verbatim>\<open>cleanTitle.replace(/[\s:;\-~]+$/, '')\<close> (line 246): the trailing run of separators
  is removed.\<close>

definition isTrailingSeparator :: "char16 \<Rightarrow> bool" where
  "isTrailingSeparator c \<longleftrightarrow> isWhiteSpace c \<or> c = 0x3A \<or> c = 0x3B \<or> c = 0x2D \<or> c = 0x7E"

definition stripTrailingSeparators :: "jsstring \<Rightarrow> jsstring" where
  "stripTrailingSeparators s = rev (dropWhile isTrailingSeparator (rev s))"

text \<open>\<^verbatim>\<open>extractVolumeNumber\<close> (lines 163-260). The result is the pair
  \<^verbatim>\<open>{volumeNumber, normalizedTitle}\<close>; \<open>None\<close> is the \<^verbatim>\<open>null\<close> volume number.
  \<open>m ! 1\<close> and \<open>m ! 2\<close> are \<^verbatim>\<open>match[1]\<close> and \<^verbatim>\<open>match[2]\<close>.\<close>

definition extractVolumeNumber :: "jsstring \<Rightarrow> int option \<times> jsstring" where
  "extractVolumeNumber title =
     (if title = [] then (None, [])
      else
        let normalizedTitle = normalizeString title in
        case regexMatch prefixVolumePattern normalizedTitle of
          Some m \<Rightarrow> (Some (parseInt10 (m ! 1)), trim (m ! 2))
        | None \<Rightarrow>
           (case regexMatch prefixRangePattern normalizedTitle of
              Some m \<Rightarrow> (Some (parseInt10 (m ! 1)), trim (m ! 2))
            | None \<Rightarrow>
               (case firstMatch patterns normalizedTitle of
                  Some m \<Rightarrow>
                    let volumeStr = m ! 2;
                        volumeNumber = (case kanjiToNumber volumeStr of
                                          Some n \<Rightarrow> n
                                        | None \<Rightarrow> parseInt10 volumeStr);
                        cleanTitle = trim (m ! 1);
                        cleanTitle = trim (stripTrailingSeparators cleanTitle)
                    in (Some volumeNumber, cleanTitle)
                | None \<Rightarrow> (None, trim normalizedTitle))))"

section \<open>Series identifiers\<close>

text \<open>
  \<^verbatim>\<open>String.prototype.toLowerCase\<close> is the case conversion of Unicode, whose tables belong to
  the engine and not to the source. What does not depend on the tables is written out:
  \<^item> a code unit of ASCII becomes its lower-case letter, wherever it stands;
  \<^item> the Kelvin sign \<^verbatim>\<open>0x212A\<close> becomes \<^verbatim>\<open>k\<close>, and no other code unit outside ASCII
    becomes ASCII only;
  \<^item> kana and the unified ideographs (\<^verbatim>\<open>0x3040-0x30FF\<close>, \<^verbatim>\<open>0x4E00-0x9FFF\<close>) have no case.

  For every other code unit the conversion is the parameter \<open>table\<close>: given the string and a
  position (the conversion of a capital sigma depends on its neighbours, that of a surrogate
  on its partner), it returns the code units that replace the code unit at that position. An
  entry that has no code unit outside ASCII is not a conversion of Unicode: the code unit is
  then left as it is. Every function below that lowers a string takes the table, and what is
  proved of it holds for every table.
\<close>

type_synonym caseTable = "jsstring \<Rightarrow> nat \<Rightarrow> jsstring"

definition lowerAscii :: "char16 \<Rightarrow> char16" where
  "lowerAscii c = (if 0x41 \<le> c \<and> c \<le> 0x5A then c + 0x20 else c)"

definition hasNoCase :: "char16 \<Rightarrow> bool" where
  "hasNoCase c \<longleftrightarrow> (0x3040 \<le> c \<and> c \<le> 0x30FF) \<or> (0x4E00 \<le> c \<and> c \<le> 0x9FFF)"

definition lowerAt :: "caseTable \<Rightarrow> jsstring \<Rightarrow> nat \<Rightarrow> jsstring" where
  "lowerAt table s i =
     (let c = s ! i in
      if c < 0x80 then [lowerAscii c]
      else if c = 0x212A then [0x6B]
      else if hasNoCase c then [c]
      else if list_ex (\<lambda>u. 0x80 \<le> u) (table s i) then table s i
      else [c])"

definition toLowerCase :: "caseTable \<Rightarrow> jsstring \<Rightarrow> jsstring" where
  "toLowerCase table s = concat (map (lowerAt table s) [0..<length s])"

text \<open>The table without entries, for the examples: it leaves every code unit outside ASCII
  as it is.\<close>

definition noTable :: caseTable where
  "noTable s i = []"

text \<open>The class \<^verbatim>\<open>[\s\-:;\u00B7\u30FB\u3001\u3002,.!?'"()[\]<>]\<close> of line 288.\<close>

definition isIdSeparator :: "char16 \<Rightarrow> bool" where
  "isIdSeparator c \<longleftrightarrow>
     isWhiteSpace c \<or>
     c \<in> set [0x2D, 0x3A, 0x3B, 0xB7, 0x30FB, 0x3001, 0x3002, 0x2C, 0x2E, 0x21, 0x3F, 0x27, 0x22,
               0x28, 0x29, 0x5B, 0x5D, 0x3C, 0x3E]"

text \<open>\<^verbatim>\<open>normalizeForId\<close> (lines 279-290) and \<^verbatim>\<open>generateSeriesId\<close> (lines 268-272), which
  does not use the authors.\<close>

definition normalizeForId :: "caseTable \<Rightarrow> jsstring \<Rightarrow> jsstring" where
  "normalizeForId table str =
     (if str = [] then []
      else
        let normalized = normalizeString str
        in trim (filter (\<lambda>c. \<not> isIdSeparator c) (toLowerCase table normalized)))"

definition generateSeriesId :: "caseTable \<Rightarrow> jsstring \<Rightarrow> jsstring \<Rightarrow> jsstring" where
  "generateSeriesId table normalizedTitle authors = normalizeForId table normalizedTitle"

section \<open>Books, series and the manager\<close>

text \<open>A book record as the source reads it: \<^verbatim>\<open>asin\<close>, \<^verbatim>\<open>title\<close>, \<^verbatim>\<open>authors\<close> and
  \<^verbatim>\<open>readStatus\<close>; \<open>None\<close> is a property that is absent.\<close>

record book =
  asin :: jsstring
  title :: "jsstring option"
  authors :: "jsstring option"
  readStatus :: "jsstring option"

text \<open>An element \<^verbatim>\<open>{book, volumeNumber}\<close> of a \<^verbatim>\<open>volumes\<close> array; \<open>None\<close> is \<^verbatim>\<open>null\<close>, and a
  number is written by its value, as \<open>toNumber\<close> gives it.\<close>

record volume =
  book :: book
  volumeNumber :: "int option"

text \<open>The value \<^verbatim>\<open>{seriesId, seriesName, authors, volumes}\<close> kept in \<^verbatim>\<open>seriesMap\<close>, and the
  \<^verbatim>\<open>SeriesInfo\<close> that extends it (the field \<^verbatim>\<open>authors\<close> is \<open>seriesAuthors\<close> here, the name
  being taken by the book's).\<close>

record seriesData =
  seriesId :: jsstring
  seriesName :: jsstring
  seriesAuthors :: jsstring
  volumes :: "volume list"

record SeriesInfo = seriesData +
  representativeBook :: book
  totalVolumes :: nat

text \<open>
  The three fields of the class. \<^verbatim>\<open>seriesGroups\<close> and \<^verbatim>\<open>bookToSeriesMap\<close> hold objects: next
  to the contents of each stands the identity of the object (\<open>seriesGroupsRef\<close>,
  \<open>bookToSeriesMapRef\<close>), and \<open>nextRef\<close> is the first identity not yet given out, so
  that \<^verbatim>\<open>[]\<close> and \<^verbatim>\<open>new Map()\<close> make objects that differ from every earlier one. The result
  of \<^verbatim>\<open>detectAndGroupSeries\<close> is the pair of the two objects: the record \<open>seriesCache\<close>.
\<close>

record seriesCache =
  seriesGroups :: "SeriesInfo list"
  seriesGroupsRef :: nat
  bookToSeriesMap :: "jsstring \<rightharpoonup> jsstring"
  bookToSeriesMapRef :: nat

record manager = seriesCache +
  cacheValid :: bool
  nextRef :: nat

text \<open>The constructor (lines 22-27); \<open>n\<close> is the first free identity.\<close>

definition newSeriesManager :: "nat \<Rightarrow> manager" where
  "newSeriesManager n =
     \<lparr>seriesGroups = [], seriesGroupsRef = n, bookToSeriesMap = Map.empty,
      bookToSeriesMapRef = n + 1, cacheValid = False, nextRef = n + 2\<rparr>"

text \<open>\<^verbatim>\<open>clearCache\<close> (lines 342-346).\<close>

definition clearCache :: "manager \<Rightarrow> manager" where
  "clearCache this =
     this\<lparr>seriesGroups := [], seriesGroupsRef := nextRef this, bookToSeriesMap := Map.empty,
          bookToSeriesMapRef := nextRef this + 1, cacheValid := False,
          nextRef := nextRef this + 2\<rparr>"

text \<open>The local \<^verbatim>\<open>seriesMap\<close> is a \<^verbatim>\<open>Map\<close>, which iterates in insertion order: an
  association list, where \<^verbatim>\<open>set\<close> of a new key appends.\<close>

type_synonym seriesMap = "(jsstring \<times> seriesData) list"

definition mapHas :: "seriesMap \<Rightarrow> jsstring \<Rightarrow> bool" where
  "mapHas m k \<longleftrightarrow> map_of m k \<noteq> None"

fun mapSet :: "seriesMap \<Rightarrow> jsstring \<Rightarrow> seriesData \<Rightarrow> seriesMap" where
  "mapSet [] k v = [(k, v)]"
| "mapSet ((k', v') # m) k v = (if k' = k then (k, v) # m else (k', v') # mapSet m k v)"

text \<open>\<^verbatim>\<open>seriesMap.get(seriesId).volumes.push(v)\<close> (lines 68-71).\<close>

definition pushVolume :: "seriesMap \<Rightarrow> jsstring \<Rightarrow> volume \<Rightarrow> seriesMap" where
  "pushVolume m k v =
     (case map_of m k of
        None \<Rightarrow> m
      | Some d \<Rightarrow> mapSet m k (d\<lparr>volumes := volumes d @ [v]\<rparr>))"

text \<open>The body of \<^verbatim>\<open>books.forEach\<close> (lines 45-72). \<^verbatim>\<open>!book.title\<close> holds of an absent and
  of an empty title.\<close>

definition collectBook :: "caseTable \<Rightarrow> seriesMap \<Rightarrow> book \<Rightarrow> seriesMap" where
  "collectBook table seriesMap b =
     (case (title b, authors b) of
        (Some t, Some a) \<Rightarrow>
          if t = [] \<or> a = [] then seriesMap
          else
            (case extractVolumeNumber t of
               (None, normalizedTitle) \<Rightarrow> seriesMap
             | (Some n, normalizedTitle) \<Rightarrow>
                 let sid = generateSeriesId table normalizedTitle a;
                     seriesMap =
                       (if \<not> mapHas seriesMap sid
                        then mapSet seriesMap sid
                               \<lparr>seriesId = sid, seriesName = normalizedTitle,
                                seriesAuthors = a, volumes = []\<rparr>
                        else seriesMap)
                 in pushVolume seriesMap sid \<lparr>book = b, volumeNumber = Some n\<rparr>)
      | _ \<Rightarrow> seriesMap)"

text \<open>The comparison function of the sort (lines 81-85). The sort reads the sign of its
  result only. The difference of two doubles has the sign of the difference of their values;
  \<^verbatim>\<open>Infinity - Infinity\<close> is \<^verbatim>\<open>NaN\<close>, which the sort reads as 0, and is 0 here.\<close>

definition compareVolumes :: "volume \<Rightarrow> volume \<Rightarrow> int" where
  "compareVolumes a b =
     (case volumeNumber a of
        None \<Rightarrow> 1
      | Some x \<Rightarrow> (case volumeNumber b of None \<Rightarrow> - 1 | Some y \<Rightarrow> x - y))"

text \<open>\<^verbatim>\<open>Array.prototype.sort\<close> with a comparison function. The sort of ECMAScript is stable
  (since ECMAScript 2019), so with a consistent comparison its result is the one of the stable
  insertion sort: an element goes before the first element that it does not exceed. The
  comparison of the source is consistent on entries that have a number, and the first loop
  keeps no other.\<close>

fun insertBy :: "('a \<Rightarrow> 'a \<Rightarrow> int) \<Rightarrow> 'a \<Rightarrow> 'a list \<Rightarrow> 'a list" where
  "insertBy cmp x [] = [x]"
| "insertBy cmp x (y # ys) = (if cmp x y \<le> 0 then x # y # ys else y # insertBy cmp x ys)"

definition sortBy :: "('a \<Rightarrow> 'a \<Rightarrow> int) \<Rightarrow> 'a list \<Rightarrow> 'a list" where
  "sortBy cmp xs = foldr (insertBy cmp) xs []"

text \<open>The body of \<^verbatim>\<open>seriesMap.forEach\<close> (lines 78-106); \<open>sid\<close> and \<open>sdata\<close> are its
  parameters \<^verbatim>\<open>seriesId\<close> and \<^verbatim>\<open>seriesData\<close>. The sort is in place: \<open>vs\<close> is
  \<^verbatim>\<open>seriesData.volumes\<close> after it.\<close>

definition emitSeries :: "manager \<Rightarrow> jsstring \<times> seriesData \<Rightarrow> manager" where
  "emitSeries this e =
     (case e of (sid, sdata) \<Rightarrow>
        if length (volumes sdata) \<ge> 2 then
          let vs = sortBy compareVolumes (volumes sdata);
              rep = book (vs ! 0);
              seriesInfo =
                \<lparr>seriesId = sid, seriesName = seriesName sdata,
                 seriesAuthors = seriesAuthors sdata, volumes = vs,
                 representativeBook = rep, totalVolumes = length vs\<rparr>
          in this\<lparr>seriesGroups := seriesGroups this @ [seriesInfo],
                  bookToSeriesMap :=
                    foldl (\<lambda>m v. m(asin (book v) \<mapsto> sid)) (bookToSeriesMap this) vs\<rparr>
        else this)"

text \<open>\<^verbatim>\<open>detectAndGroupSeries\<close> (lines 34-114): the result and the manager after the call.\<close>

definition detectAndGroupSeries :: "caseTable \<Rightarrow> book list \<Rightarrow> manager \<Rightarrow> seriesCache \<times> manager" where
  "detectAndGroupSeries table books this =
     (if cacheValid this \<and> length (seriesGroups this) > 0
      then (seriesCache.truncate this, this)
      else
        let seriesMap = foldl (collectBook table) [] books;
            this = this\<lparr>seriesGroups := [], seriesGroupsRef := nextRef this,
                        bookToSeriesMap := Map.empty, bookToSeriesMapRef := nextRef this + 1,
                        nextRef := nextRef this + 2\<rparr>;
            this = foldl emitSeries this seriesMap;
            this = this\<lparr>cacheValid := True\<rparr>
        in (seriesCache.truncate this, this))"

text \<open>\<^verbatim>\<open>getSeriesById\<close> (lines 324-326) and \<^verbatim>\<open>getSeriesByBookAsin\<close> (lines 333-337);
  \<open>None\<close> is \<^verbatim>\<open>null\<close>. \<^verbatim>\<open>!seriesId\<close> holds of a missing entry and of the empty string.\<close>

definition getSeriesById :: "manager \<Rightarrow> jsstring \<Rightarrow> SeriesInfo option" where
  "getSeriesById this sid = find (\<lambda>s. seriesId s = sid) (seriesGroups this)"

definition getSeriesByBookAsin :: "manager \<Rightarrow> jsstring \<Rightarrow> SeriesInfo option" where
  "getSeriesByBookAsin this a =
     (case bookToSeriesMap this a of
        None \<Rightarrow> None
      | Some sid \<Rightarrow> if sid = [] then None else getSeriesById this sid)"

text \<open>\<^verbatim>\<open>getSeriesProgress\<close> (lines 297-317). Its argument is absent, or an object without
  \<^verbatim>\<open>volumes\<close>, or an object with them.\<close>

datatype seriesArg = NoSeries | NoVolumes | WithVolumes "volume list"

record SeriesProgress =
  total :: int
  read :: int
  unread :: int

definition isRead :: "caseTable \<Rightarrow> book \<Rightarrow> bool" where
  "isRead table b =
     (case readStatus b of
        None \<Rightarrow> False
      | Some r \<Rightarrow> r \<noteq> [] \<and> toLowerCase table r = [0x72, 0x65, 0x61, 0x64])"

definition getSeriesProgress :: "caseTable \<Rightarrow> seriesArg \<Rightarrow> SeriesProgress" where
  "getSeriesProgress table series =
     (case series of
        NoSeries \<Rightarrow> \<lparr>total = 0, read = 0, unread = 0\<rparr>
      | NoVolumes \<Rightarrow> \<lparr>total = 0, read = 0, unread = 0\<rparr>
      | WithVolumes vs \<Rightarrow>
          let total = int (length vs);
              read = foldl (\<lambda>read v. if isRead table (book v) then read + 1 else read) 0 vs
          in \<lparr>total = total, read = read, unread = total - read\<rparr>)"

section \<open>Auxiliary notions of the proofs\<close>

text \<open>What \<open>normalizeString\<close> does to one code unit before the white space is collapsed:
  the replacements of the source, composed (the first one innermost).\<close>

definition normChar :: "char16 \<Rightarrow> char16" where
  "normChar =
     substChar 0xFF0E 0x2E \<circ> substChar 0xFF0C 0x2C \<circ> substChar 0xFF0B 0x2B \<circ>
     substChar 0xFF0A 0x2A \<circ> substChar 0xFF06 0x26 \<circ> substChar 0xFF1F 0x3F \<circ>
     substChar 0xFF01 0x21 \<circ> substChars [0xFF5E, 0x301C] 0x7E \<circ>
     substChars [0xFF0D, 0x2015, 0x2500, 0x30FC, 0x2212] 0x2D \<circ>
     substChar 0xFF1B 0x3B \<circ> substChar 0xFF1A 0x3A \<circ> substChar 0x3000 0x20 \<circ>
     substChar 0x300D 0x5D \<circ> substChar 0x300C 0x5B \<circ> substChar 0x3011 0x5D \<circ>
     substChar 0x3010 0x5B \<circ> substChar 0xFF09 0x29 \<circ> substChar 0xFF08 0x28 \<circ>
     toHalfWidth"

text \<open>A string in which every white space is a single space with no white space after
  it.\<close>

fun collapsed :: "jsstring \<Rightarrow> bool" where
  "collapsed [] = True"
| "collapsed (c # cs) =
     ((isWhiteSpace c \<longrightarrow> c = 0x20 \<and> (case cs of [] \<Rightarrow> True | d # _ \<Rightarrow> \<not> isWhiteSpace d)) \<and>
      collapsed cs)"

text \<open>A replacement that moves code units into ASCII, leaves ASCII alone and keeps white
  space apart from the rest.\<close>

definition asciiStep :: "(char16 \<Rightarrow> char16) \<Rightarrow> bool" where
  "asciiStep g \<longleftrightarrow>
     (\<forall>c. (g c \<noteq> c \<longrightarrow> g c < 0x80) \<and> (c < 0x80 \<longrightarrow> g c = c) \<and>
          isWhiteSpace (g c) = isWhiteSpace c)"

section \<open>The grouping as a function of the input\<close>

text \<open>What \<^verbatim>\<open>books.forEach\<close> makes of one book: nothing, or the series identifier, the
  series name, the authors and the volume number.\<close>

definition candidate :: "caseTable \<Rightarrow> book \<Rightarrow> (jsstring \<times> jsstring \<times> jsstring \<times> int) option" where
  "candidate table b =
     (case (title b, authors b) of
        (Some t, Some a) \<Rightarrow>
          if t = [] \<or> a = [] then None
          else
            (case extractVolumeNumber t of
               (None, normalizedTitle) \<Rightarrow> None
             | (Some n, normalizedTitle) \<Rightarrow>
                 Some (generateSeriesId table normalizedTitle a, normalizedTitle, a, n))
      | _ \<Rightarrow> None)"

text \<open>The entries of the series \<open>k\<close> in the order of the input: one for every book that is a
  candidate of that series.\<close>

definition bucketOf :: "caseTable \<Rightarrow> jsstring \<Rightarrow> book list \<Rightarrow> volume list" where
  "bucketOf table k books =
     concat (map (\<lambda>b. case candidate table b of
                         None \<Rightarrow> []
                       | Some (k', nt, a, n) \<Rightarrow>
                           if k' = k then [\<lparr>book = b, volumeNumber = Some n\<rparr>] else [])
                 books)"

text \<open>Both loops of \<^verbatim>\<open>detectAndGroupSeries\<close> as functions: the map after the first loop, and
  the series list and the index that the second loop makes of a map.\<close>

definition scan :: "caseTable \<Rightarrow> book list \<Rightarrow> seriesMap" where
  "scan table books = foldl (collectBook table) [] books"

definition seriesInfoOf :: "jsstring \<Rightarrow> seriesData \<Rightarrow> SeriesInfo" where
  "seriesInfoOf k d =
     \<lparr>seriesId = k, seriesName = seriesName d, seriesAuthors = seriesAuthors d,
      volumes = sortBy compareVolumes (volumes d),
      representativeBook = book (sortBy compareVolumes (volumes d) ! 0),
      totalVolumes = length (sortBy compareVolumes (volumes d))\<rparr>"

definition groupsOf :: "seriesMap \<Rightarrow> SeriesInfo list" where
  "groupsOf m =
     map (\<lambda>(k, d). seriesInfoOf k d) (filter (\<lambda>(k, d). 2 \<le> length (volumes d)) m)"

fun indexInto :: "(jsstring \<rightharpoonup> jsstring) \<Rightarrow> seriesMap \<Rightarrow> (jsstring \<rightharpoonup> jsstring)" where
  "indexInto ix [] = ix"
| "indexInto ix ((k, d) # m) =
     indexInto
       (if 2 \<le> length (volumes d)
        then foldl (\<lambda>m v. m(asin (book v) \<mapsto> k)) ix (sortBy compareVolumes (volumes d))
        else ix) m"

text \<open>The invariant of the first loop: the keys of the map are distinct, the value under a key
  is the series of that key with the entries of \<open>bucketOf\<close>, and a series with an entry has
  a key.\<close>

definition bucketsOk :: "caseTable \<Rightarrow> book list \<Rightarrow> seriesMap \<Rightarrow> bool" where
  "bucketsOk table books m \<longleftrightarrow>
     distinct (map fst m) \<and>
     (\<forall>k. map_of m k = None \<longrightarrow> bucketOf table k books = []) \<and>
     (\<forall>k d. map_of m k = Some d \<longrightarrow> seriesId d = k \<and> volumes d = bucketOf table k books)"

text \<open>The number of a volume, for the entries that have one.\<close>

definition volKey :: "volume \<Rightarrow> int" where
  "volKey v = (case volumeNumber v of None \<Rightarrow> 0 | Some n \<Rightarrow> n)"

text \<open>The managers that a program can reach: from the constructor, by calls of
  \<^verbatim>\<open>detectAndGroupSeries\<close> on inputs that satisfy \<open>P\<close>, and of \<^verbatim>\<open>clearCache\<close>.\<close>

inductive reachable :: "caseTable \<Rightarrow> (book list \<Rightarrow> bool) \<Rightarrow> manager \<Rightarrow> bool" for table P where
  constructed: "reachable table P (newSeriesManager n)"
| detected: "reachable table P this \<Longrightarrow> P books \<Longrightarrow> reachable table P (snd (detectAndGroupSeries table books this))"
| cleared: "reachable table P this \<Longrightarrow> reachable table P (clearCache this)"

text \<open>The book identifiers of the volumes of a series.\<close>

definition volumeIds :: "SeriesInfo \<Rightarrow> jsstring set" where
  "volumeIds si = asin ` book ` set (volumes si)"

text \<open>An input in which no two books share their identifier.\<close>

definition distinctIds :: "book list \<Rightarrow> bool" where
  "distinctIds books \<longleftrightarrow> distinct (map asin books)"

text \<open>The order of the volumes of a series, in the words of the specification: \<open>a\<close> may
  stand before \<open>b\<close> when \<open>b\<close> has no number, or both have one and that of \<open>a\<close> is not the
  greater; an entry without a number stands before such entries only.\<close>

definition volumeLe :: "volume \<Rightarrow> volume \<Rightarrow> bool" where
  "volumeLe a b =
     (case volumeNumber a of
        None \<Rightarrow> volumeNumber b = None
      | Some x \<Rightarrow> (case volumeNumber b of None \<Rightarrow> True | Some y \<Rightarrow> x \<le> y))"

section \<open>Read status up to case\<close>

text \<open>Equality up to the case of the letters A to Z, the reading of "case-insensitively
  equals" in the specification, and the word \<^verbatim>\<open>"read"\<close>.\<close>

definition sameLetter :: "char16 \<Rightarrow> char16 \<Rightarrow> bool" where
  "sameLetter a b \<longleftrightarrow>
     a = b \<or> (0x41 \<le> a \<and> a \<le> 0x5A \<and> b = a + 0x20) \<or> (0x41 \<le> b \<and> b \<le> 0x5A \<and> a = b + 0x20)"

definition equalsIgnoreCase :: "jsstring \<Rightarrow> jsstring \<Rightarrow> bool" where
  "equalsIgnoreCase r s = list_all2 sameLetter r s"

definition readWord :: jsstring where
  "readWord = [0x72, 0x65, 0x61, 0x64]"

text \<open>The number of volumes whose book has a read status that equals \<^verbatim>\<open>"read"\<close> up to
  case.\<close>

definition readCount :: "volume list \<Rightarrow> nat" where
  "readCount vs =
     length (filter (\<lambda>v. case readStatus (book v) of
                            None \<Rightarrow> False
                          | Some r \<Rightarrow> equalsIgnoreCase r readWord) vs)"

section \<open>The inputs of the examples\<close>

text \<open>The titles of the examples of the specification, as code units: a long-form title
  with the number 8 glued to it, a subtitle and a label in parentheses; its series name; and
  \<^verbatim>\<open>"Title (1)"\<close>, \<^verbatim>\<open>"title1"\<close>.\<close>

definition gluedTitle :: jsstring where
  "gluedTitle =
     [0x5927, 0x9577, 0x7DE8, 0x30BF, 0x30A4, 0x30C8, 0x30EB, 0x38, 0x20, 0x526F, 0x984C, 0x20,
      0x28, 0x30EC, 0x30FC, 0x30D9, 0x30EB, 0x29]"

definition gluedSeriesName :: jsstring where
  "gluedSeriesName = [0x5927, 0x9577, 0x7DE8, 0x30BF, 0x30A4, 0x30C8, 0x30EB]"



text \<open>An input for the examples: the books \<^verbatim>\<open>B2\<close> "S 2", \<^verbatim>\<open>B1\<close> "S 1", \<^verbatim>\<open>B3\<close> "S 1" and
  \<^verbatim>\<open>B4\<close> "T", all by the author "A". The first three make the series "S"; the last has no
  volume number.\<close>

definition exampleBook :: "jsstring \<Rightarrow> jsstring \<Rightarrow> book" where
  "exampleBook a t = \<lparr>asin = a, title = Some t, authors = Some [0x41], readStatus = None\<rparr>"

definition exampleBooks :: "book list" where
  "exampleBooks =
     [exampleBook [0x42, 0x32] [0x53, 0x20, 0x32], exampleBook [0x42, 0x31] [0x53, 0x20, 0x31],
      exampleBook [0x42, 0x33] [0x53, 0x20, 0x31], exampleBook [0x42, 0x34] [0x54]]"

definition exampleSeries :: SeriesInfo where
  "exampleSeries =
     \<lparr>seriesId = [0x73], seriesName = [0x53], seriesAuthors = [0x41],
      volumes =
        [\<lparr>book = exampleBook [0x42, 0x31] [0x53, 0x20, 0x31], volumeNumber = Some 1\<rparr>,
         \<lparr>book = exampleBook [0x42, 0x33] [0x53, 0x20, 0x31], volumeNumber = Some 1\<rparr>,
         \<lparr>book = exampleBook [0x42, 0x32] [0x53, 0x20, 0x32], volumeNumber = Some 2\<rparr>],
      representativeBook = exampleBook [0x42, 0x31] [0x53, 0x20, 0x31], totalVolumes = 3\<rparr>"

text \<open>The titles of two more examples of the specification: the series name, a colon, 27
  and a subtitle; the series name, \<^verbatim>\<open>(28)\<close> and a second subtitle with no space between;
  the series name after \<open>normalizeString\<close> (its long vowel mark has become a hyphen) and the
  series identifier. Then \<^verbatim>\<open>"~ 1"\<close> and \<^verbatim>\<open>"~ 2"\<close>.\<close>

definition colonTitle :: jsstring where
  "colonTitle =
     [0x30B7, 0x30EA, 0x30FC, 0x30BA, 0x540D, 0x20, 0x3A, 0x20, 0x32, 0x37, 0x20,
      0x30B5, 0x30D6, 0x30BF, 0x30A4, 0x30C8, 0x30EB]"

definition parenTitle :: jsstring where
  "parenTitle =
     [0x30B7, 0x30EA, 0x30FC, 0x30BA, 0x540D, 0x28, 0x32, 0x38, 0x29,
      0x30B5, 0x30D6, 0x30BF, 0x30A4, 0x30C8, 0x30EB, 0x32]"

definition exampleSeriesName :: jsstring where
  "exampleSeriesName = [0x30B7, 0x30EA, 0x2D, 0x30BA, 0x540D]"

definition exampleSeriesId :: jsstring where
  "exampleSeriesId = [0x30B7, 0x30EA, 0x30BA, 0x540D]"

definition tildeTitle1 :: jsstring where
  "tildeTitle1 = [0x7E, 0x20, 0x31]"

definition tildeTitle2 :: jsstring where
  "tildeTitle2 = [0x7E, 0x20, 0x32]"

text \<open>An input with volume numbers that a double cannot tell apart: \<^verbatim>\<open>H\<close>
  "S 9007199254740993" and \<^verbatim>\<open>L\<close> "S 9007199254740992", in this order. Both numbers are
  \<open>2 ^ 53\<close> as doubles.\<close>

definition roundedTitleH :: jsstring where
  "roundedTitleH =
     [0x53, 0x20, 0x39, 0x30, 0x30, 0x37, 0x31, 0x39, 0x39, 0x32, 0x35, 0x34, 0x37, 0x34, 0x30,
      0x39, 0x39, 0x33]"

definition roundedTitleL :: jsstring where
  "roundedTitleL =
     [0x53, 0x20, 0x39, 0x30, 0x30, 0x37, 0x31, 0x39, 0x39, 0x32, 0x35, 0x34, 0x37, 0x34, 0x30,
      0x39, 0x39, 0x32]"

definition roundedBooks :: "book list" where
  "roundedBooks = [exampleBook [0x48] roundedTitleH, exampleBook [0x4C] roundedTitleL]"

text \<open>The two books of the example of the empty series identifier.\<close>

definition tildeBooks :: "book list" where
  "tildeBooks = [exampleBook [0x58] tildeTitle1, exampleBook [0x59] tildeTitle2]"

section \<open>The match array\<close>

text \<open>A match has one entry for the whole match and one for every group of the pattern. Every
  pattern of the source has two groups, so the indices 1 and 2 that \<open>extractVolumeNumber\<close>
  reads are in range.\<close>

lemma rmatch_length:
  "rmatch p s i caps = Some r \<Longrightarrow> length r = length caps + count_list p GOpen"
proof (induction p s i caps arbitrary: r rule: rmatch.induct)
  case (1 s i caps)
  then show ?case by (auto split: if_splits)
next
  case (2 p s i caps)
  from "2.prems" have "rmatch p s i ((i, i) # caps) = Some r" by simp
  from "2.IH" [OF this] show ?case by simp
next
  case (3 p s i caps)
  show ?case
  proof (cases caps)
    case Nil
    with "3.prems" show ?thesis by simp
  next
    case (Cons ab cs)
    obtain a b where ab: "ab = (a, b)" by (cases ab)
    from "3.prems" Cons ab have "rmatch p s i ((a, i) # cs) = Some r" by simp
    from "3.IH" [OF Cons ab [symmetric] this] Cons show ?thesis by simp
  qed
next
  case (4 k p s i caps)
  show ?case
  proof (cases s)
    case Nil
    with "4.prems" show ?thesis by simp
  next
    case (Cons c cs)
    with "4.prems" have m: "cmatches k c" and "rmatch p cs (Suc i) caps = Some r"
      by (simp_all split: if_splits)
    from "4.IH" [OF Cons this] show ?thesis by simp
  qed
next
  case (5 k p s i caps)
  show ?case
  proof (cases s)
    case Nil
    with "5.prems" have "rmatch p s i caps = Some r" by simp
    from "5.IH"(1) [OF Nil this] show ?thesis by simp
  next
    case (Cons c cs)
    show ?thesis
    proof (cases "cmatches k c")
      case True
      show ?thesis
      proof (cases "rmatch p cs (Suc i) caps")
        case None
        with "5.prems" Cons True have "rmatch p s i caps = Some r" by simp
        from "5.IH"(3) [OF Cons True None this] show ?thesis by simp
      next
        case (Some m)
        with "5.prems" Cons True have "rmatch p cs (Suc i) caps = Some r" by simp
        from "5.IH"(2) [OF Cons True this] show ?thesis by simp
      qed
    next
      case False
      with "5.prems" Cons have "rmatch p s i caps = Some r" by simp
      from "5.IH"(4) [OF Cons False this] show ?thesis by simp
    qed
  qed
next
  case (6 k p s i caps)
  show ?case
  proof (cases s)
    case Nil
    with "6.prems" have "rmatch p s i caps = Some r" by simp
    from "6.IH"(1) [OF Nil this] show ?thesis by simp
  next
    case (Cons c cs)
    show ?thesis
    proof (cases "cmatches k c")
      case True
      show ?thesis
      proof (cases "rmatch (Atom k Star # p) cs (Suc i) caps")
        case None
        with "6.prems" Cons True have "rmatch p s i caps = Some r" by simp
        from "6.IH"(3) [OF Cons True None this] show ?thesis by simp
      next
        case (Some m)
        with "6.prems" Cons True have "rmatch (Atom k Star # p) cs (Suc i) caps = Some r"
          by simp
        from "6.IH"(2) [OF Cons True this] show ?thesis by simp
      qed
    next
      case False
      with "6.prems" Cons have "rmatch p s i caps = Some r" by simp
      from "6.IH"(4) [OF Cons False this] show ?thesis by simp
    qed
  qed
next
  case (7 k p s i caps)
  show ?case
  proof (cases s)
    case Nil
    with "7.prems" show ?thesis by simp
  next
    case (Cons c cs)
    with "7.prems" have m: "cmatches k c" and "rmatch (Atom k Star # p) cs (Suc i) caps = Some r"
      by (simp_all split: if_splits)
    from "7.IH" [OF Cons this] show ?thesis by simp
  qed
next
  case (8 k p s i caps)
  show ?case
  proof (cases s)
    case Nil
    with "8.prems" show ?thesis by simp
  next
    case (Cons c cs)
    with "8.prems" have m: "cmatches k c"
      and "rmatch (Atom k StarLazy # p) cs (Suc i) caps = Some r"
      by (simp_all split: if_splits)
    from "8.IH" [OF Cons this] show ?thesis by simp
  qed
next
  case (9 k p s i caps)
  show ?case
  proof (cases "rmatch p s i caps")
    case (Some m)
    with "9.prems" have "rmatch p s i caps = Some r" by simp
    from "9.IH"(1) [OF this] show ?thesis by simp
  next
    case None
    show ?thesis
    proof (cases s)
      case Nil
      with "9.prems" None show ?thesis by simp
    next
      case (Cons c cs)
      with "9.prems" None have m: "cmatches k c"
        and "rmatch (Atom k StarLazy # p) cs (Suc i) caps = Some r"
        by (simp_all split: if_splits)
      from "9.IH"(2) [OF None Cons this] show ?thesis by simp
    qed
  qed
qed

lemma regexMatch_length:
  "regexMatch p s = Some m \<Longrightarrow> length m = Suc (count_list p GOpen)"
  by (auto simp: regexMatch_def dest: rmatch_length split: option.splits)

lemma firstMatch_member:
  "firstMatch ps s = Some m \<Longrightarrow> \<exists>p \<in> set ps. regexMatch p s = Some m"
  by (induction ps) (auto split: option.splits)

lemma patterns_groups: "\<forall>p \<in> set patterns. count_list p GOpen = 2"
  by (simp add: patterns_def)

lemma firstMatch_patterns_length: "firstMatch patterns s = Some m \<Longrightarrow> length m = 3"
  using firstMatch_member [of patterns s m] patterns_groups regexMatch_length by fastforce

lemma prefix_patterns_length:
  "regexMatch prefixVolumePattern s = Some m \<Longrightarrow> length m = 3"
  "regexMatch prefixRangePattern s = Some m \<Longrightarrow> length m = 3"
  by (auto dest!: regexMatch_length simp: prefixVolumePattern_def prefixRangePattern_def)

section \<open>Normalization is idempotent\<close>

lemma normalizeString_map:
  "normalizeString str = trim (replaceSpaceRuns (map normChar str))"
  by (simp add: normalizeString_def replaceChar_def replaceChars_def normChar_def Let_def trim_def)

lemma asciiStep_comp: "asciiStep g \<Longrightarrow> asciiStep h \<Longrightarrow> asciiStep (g \<circ> h)"
  unfolding asciiStep_def o_def by metis

lemma asciiStep_substChar:
  "\<not> x < 0x80 \<Longrightarrow> y < 0x80 \<Longrightarrow> isWhiteSpace x = isWhiteSpace y \<Longrightarrow> asciiStep (substChar x y)"
  unfolding asciiStep_def substChar_def by auto

lemma asciiStep_substChars:
  "\<forall>x \<in> set xs. \<not> x < 0x80 \<and> \<not> isWhiteSpace x \<Longrightarrow> y < 0x80 \<Longrightarrow> \<not> isWhiteSpace y \<Longrightarrow>
   asciiStep (substChars xs y)"
  unfolding asciiStep_def substChars_def by auto

lemma toHalfWidth_range:
  "toHalfWidth c \<noteq> c \<Longrightarrow> 0xFF10 \<le> c \<and> 0x30 \<le> toHalfWidth c \<and> toHalfWidth c \<le> 0x7A"
  unfolding toHalfWidth_def by (simp split: if_splits; unat_arith)

lemma not_ws_high: "0xFF10 \<le> c \<Longrightarrow> \<not> isWhiteSpace c"
  unfolding isWhiteSpace_def by (auto; unat_arith)

lemma not_ws_mid: "0x30 \<le> c \<Longrightarrow> c \<le> 0x7A \<Longrightarrow> \<not> isWhiteSpace c"
  unfolding isWhiteSpace_def by (auto; unat_arith)

lemma asciiStep_toHalfWidth: "asciiStep toHalfWidth"
proof -
  have "toHalfWidth c \<noteq> c \<longrightarrow> toHalfWidth c < 0x80" for c
    using toHalfWidth_range [of c] by unat_arith
  moreover have "c < 0x80 \<longrightarrow> toHalfWidth c = c" for c
    using toHalfWidth_range [of c] by unat_arith
  moreover have "isWhiteSpace (toHalfWidth c) = isWhiteSpace c" for c
    using toHalfWidth_range [of c] not_ws_high [of c] not_ws_mid [of "toHalfWidth c"]
    by (cases "toHalfWidth c = c") auto
  ultimately show ?thesis unfolding asciiStep_def by blast
qed

lemma asciiStep_normChar: "asciiStep normChar"
  unfolding normChar_def
  by (intro asciiStep_comp asciiStep_substChar asciiStep_substChars asciiStep_toHalfWidth)
     (simp_all add: isWhiteSpace_def)

lemma normChar_idem: "normChar (normChar c) = normChar c"
  using asciiStep_normChar unfolding asciiStep_def by metis

lemma normChar_ws: "isWhiteSpace (normChar c) = isWhiteSpace c"
  using asciiStep_normChar unfolding asciiStep_def by blast

lemma normChar_space: "normChar 0x20 = 0x20"
  using asciiStep_normChar unfolding asciiStep_def by simp

lemma map_normChar_dropWhile:
  "map normChar (dropWhile isWhiteSpace xs) = dropWhile isWhiteSpace (map normChar xs)"
  by (induction xs) (simp_all add: normChar_ws)

lemma map_normChar_trim: "map normChar (trim xs) = trim (map normChar xs)"
  by (simp add: trim_def rev_map [symmetric] map_normChar_dropWhile)

lemma map_normChar_replaceSpaceRuns:
  "map normChar (replaceSpaceRuns xs) = replaceSpaceRuns (map normChar xs)"
  by (induction xs rule: replaceSpaceRuns.induct)
     (simp_all add: normChar_ws normChar_space map_normChar_dropWhile)

lemma replaceSpaceRuns_head:
  "xs \<noteq> [] \<Longrightarrow> \<not> isWhiteSpace (hd xs) \<Longrightarrow>
   replaceSpaceRuns xs \<noteq> [] \<and> hd (replaceSpaceRuns xs) = hd xs"
  by (cases xs) simp_all

lemma dropWhile_head: "dropWhile P xs \<noteq> [] \<Longrightarrow> \<not> P (hd (dropWhile P xs))"
  by (simp add: hd_dropWhile)

lemma collapsed_replaceSpaceRuns: "collapsed (replaceSpaceRuns xs)"
proof (induction xs rule: replaceSpaceRuns.induct)
  case 1
  show ?case by simp
next
  case (2 c cs)
  show ?case
  proof (cases "isWhiteSpace c")
    case True
    let ?r = "dropWhile isWhiteSpace cs"
    have "case replaceSpaceRuns ?r of [] \<Rightarrow> True | d # _ \<Rightarrow> \<not> isWhiteSpace d"
    proof (cases "?r = []")
      case True
      then have "replaceSpaceRuns ?r = []" by (simp only: replaceSpaceRuns.simps)
      then show ?thesis by (simp only: list.case)
    next
      case False
      then have "\<not> isWhiteSpace (hd ?r)" by (rule dropWhile_head)
      with False have "replaceSpaceRuns ?r \<noteq> [] \<and> hd (replaceSpaceRuns ?r) = hd ?r"
        by (simp add: replaceSpaceRuns_head)
      with \<open>\<not> isWhiteSpace (hd ?r)\<close> show ?thesis
        by (cases "replaceSpaceRuns ?r") auto
    qed
    with True 2 show ?thesis by simp
  next
    case False
    with 2 show ?thesis by simp
  qed
qed

lemma replaceSpaceRuns_collapsed: "collapsed xs \<Longrightarrow> replaceSpaceRuns xs = xs"
proof (induction xs rule: replaceSpaceRuns.induct)
  case 1
  show ?case by simp
next
  case (2 c cs)
  show ?case
  proof (cases "isWhiteSpace c")
    case True
    with "2.prems" have c: "c = 0x20" and cs: "dropWhile isWhiteSpace cs = cs" and "collapsed cs"
      by (auto split: list.splits)
    with True "2.IH"(1) show ?thesis by simp
  next
    case False
    with 2 show ?thesis by simp
  qed
qed

lemma collapsed_tail: "collapsed (c # cs) \<Longrightarrow> collapsed cs"
  by simp

lemma collapsed_dropWhile: "collapsed xs \<Longrightarrow> collapsed (dropWhile P xs)"
  by (induction xs) (auto simp del: collapsed.simps dest: collapsed_tail)

lemma collapsed_prefix: "collapsed (xs @ ys) \<Longrightarrow> collapsed xs"
proof (induction xs)
  case Nil
  show ?case by simp
next
  case (Cons c cs)
  then show ?case by (cases cs) simp_all
qed

lemma trim_prefix:
  "dropWhile isWhiteSpace u =
   trim u @ rev (takeWhile isWhiteSpace (rev (dropWhile isWhiteSpace u)))"
  unfolding trim_def by (metis rev_append rev_rev_ident takeWhile_dropWhile_id)

lemma collapsed_trim: "collapsed u \<Longrightarrow> collapsed (trim u)"
  using collapsed_prefix [of "trim u"] trim_prefix [of u] collapsed_dropWhile [of u isWhiteSpace]
  by metis

lemma trim_head: "dropWhile isWhiteSpace (trim u) = trim u"
proof (cases "trim u")
  case Nil
  then show ?thesis by simp
next
  case (Cons c cs)
  obtain z where "dropWhile isWhiteSpace u = (c # cs) @ z"
    using trim_prefix [of u] Cons by metis
  then have "dropWhile isWhiteSpace u \<noteq> []" and "hd (dropWhile isWhiteSpace u) = c"
    by simp_all
  then have "\<not> isWhiteSpace c" using dropWhile_head by metis
  with Cons show ?thesis by simp
qed

lemma trim_idem: "trim (trim u) = trim u"
proof -
  have "dropWhile isWhiteSpace (rev (trim u)) = rev (trim u)"
    by (simp add: trim_def)
  then show ?thesis unfolding trim_def [of "trim u"] trim_head by simp
qed

text \<open>
  Claim C7: the display normalization is idempotent, for every string \<open>s\<close>:
  \<^verbatim>\<open>normalize(normalize(s)) == normalize(s)\<close>.
\<close>

theorem normalizeString_idempotent: "normalizeString (normalizeString s) = normalizeString s"
proof -
  let ?u = "replaceSpaceRuns (map normChar s)"
  have "map normChar (trim ?u) = trim ?u"
    by (simp add: map_normChar_trim map_normChar_replaceSpaceRuns normChar_idem o_def)
  moreover have "replaceSpaceRuns (trim ?u) = trim ?u"
    by (intro replaceSpaceRuns_collapsed collapsed_trim collapsed_replaceSpaceRuns)
  ultimately show ?thesis by (simp add: normalizeString_map trim_idem)
qed

section \<open>The examples of extraction and of identifier normalization\<close>

text \<open>
  Claim C5: volume extraction on the title of the long-form example (the title, the digit 8
  glued to it, a subtitle, a label in parentheses) returns the volume number 8 and the title
  before the digit as the series name. Neither prefix pattern matches the normalized title,
  none of the first ten patterns does, and the eleventh, the rule of a number glued to the
  title and followed by a subtitle and a label, does.
\<close>

theorem extractVolumeNumber_glued_example:
  "extractVolumeNumber gluedTitle = (Some 8, gluedSeriesName) \<and>
   regexMatch prefixVolumePattern (normalizeString gluedTitle) = None \<and>
   regexMatch prefixRangePattern (normalizeString gluedTitle) = None \<and>
   firstMatch (take 10 patterns) (normalizeString gluedTitle) = None \<and>
   regexMatch (patterns ! 10) (normalizeString gluedTitle) =
     Some [normalizeString gluedTitle, gluedSeriesName, [0x38]]"
  by code_simp


section \<open>The first loop, the sort and the second loop\<close>

lemma map_of_mapSet: "map_of (mapSet m k v) = (map_of m)(k \<mapsto> v)"
  by (induction m k v rule: mapSet.induct) auto

lemma keys_mapSet:
  "map fst (mapSet m k v) = (if k \<in> set (map fst m) then map fst m else map fst m @ [k])"
  by (induction m k v rule: mapSet.induct) auto

lemma distinct_mapSet: "distinct (map fst m) \<Longrightarrow> distinct (map fst (mapSet m k v))"
  by (simp add: keys_mapSet)

lemma map_of_pushVolume:
  "map_of (pushVolume m k v) =
     (case map_of m k of None \<Rightarrow> map_of m
      | Some d \<Rightarrow> (map_of m)(k \<mapsto> d\<lparr>volumes := volumes d @ [v]\<rparr>))"
  by (simp add: pushVolume_def map_of_mapSet split: option.splits)

lemma distinct_pushVolume: "distinct (map fst m) \<Longrightarrow> distinct (map fst (pushVolume m k v))"
  by (simp add: pushVolume_def distinct_mapSet split: option.splits)

lemma collectBook_candidate:
  "collectBook table m b =
     (case candidate table b of
        None \<Rightarrow> m
      | Some (k, nt, a, n) \<Rightarrow>
          pushVolume
            (if \<not> mapHas m k
             then mapSet m k \<lparr>seriesId = k, seriesName = nt, seriesAuthors = a, volumes = []\<rparr>
             else m)
            k \<lparr>book = b, volumeNumber = Some n\<rparr>)"
  by (auto simp: collectBook_def candidate_def Let_def split: option.splits prod.splits)

lemma bucketOf_snoc:
  "bucketOf table k (bs @ [b]) =
     bucketOf table k bs @
     (case candidate table b of
        None \<Rightarrow> []
      | Some (k', nt, a, n) \<Rightarrow> if k' = k then [\<lparr>book = b, volumeNumber = Some n\<rparr>] else [])"
  by (simp add: bucketOf_def)

lemma bucketsOk_empty: "bucketsOk table [] []"
  by (simp add: bucketsOk_def bucketOf_def)

lemma bucketsOk_collectBook:
  assumes "bucketsOk table bs m"
  shows "bucketsOk table (bs @ [b]) (collectBook table m b)"
proof (cases "candidate table b")
  case None
  with assms show ?thesis
    by (simp add: collectBook_candidate bucketsOk_def bucketOf_snoc)
next
  case (Some c)
  obtain k nt a n where c: "c = (k, nt, a, n)" by (cases c)
  let ?v = "\<lparr>book = b, volumeNumber = Some n\<rparr>"
  let ?m1 = "if \<not> mapHas m k
             then mapSet m k \<lparr>seriesId = k, seriesName = nt, seriesAuthors = a, volumes = []\<rparr>
             else m"
  have cb: "collectBook table m b = pushVolume ?m1 k ?v"
    using Some c by (simp add: collectBook_candidate)
  have d: "distinct (map fst (collectBook table m b))"
    using assms unfolding cb bucketsOk_def
    by (intro distinct_pushVolume) (simp add: distinct_mapSet)
  have inv_none: "map_of m j = None \<Longrightarrow> bucketOf table j bs = []" for j
    using assms unfolding bucketsOk_def by blast
  have inv_some: "map_of m j = Some d \<Longrightarrow> seriesId d = j \<and> volumes d = bucketOf table j bs" for j d
    using assms unfolding bucketsOk_def by blast
  have none: "map_of (collectBook table m b) j = None \<Longrightarrow> bucketOf table j (bs @ [b]) = []" for j
    using inv_none [of j] Some c
    by (auto simp: cb map_of_pushVolume map_of_mapSet mapHas_def bucketOf_snoc
             split: option.splits if_splits)
  have some: "map_of (collectBook table m b) j = Some d \<Longrightarrow>
              seriesId d = j \<and> volumes d = bucketOf table j (bs @ [b])" for j d
    using inv_none [of k] inv_some [of j d] inv_some [of k] Some c
    by (auto simp: cb map_of_pushVolume map_of_mapSet mapHas_def bucketOf_snoc
             split: option.splits if_splits)
  from d none some show ?thesis unfolding bucketsOk_def by blast
qed

lemma bucketsOk_scan: "bucketsOk table bs (scan table bs)"
  unfolding scan_def
  by (induction bs rule: rev_induct) (simp_all add: bucketsOk_empty bucketsOk_collectBook)

lemma set_insertBy: "set (insertBy cmp x ys) = insert x (set ys)"
  by (induction ys) auto

lemma length_insertBy: "length (insertBy cmp x ys) = Suc (length ys)"
  by (induction ys) auto

lemma set_sortBy: "set (sortBy cmp xs) = set xs"
  unfolding sortBy_def by (induction xs) (simp_all add: set_insertBy)

lemma length_sortBy: "length (sortBy cmp xs) = length xs"
  unfolding sortBy_def by (induction xs) (simp_all add: length_insertBy)

lemma insertBy_insort_key:
  "volumeNumber x \<noteq> None \<Longrightarrow> \<forall>y \<in> set ys. volumeNumber y \<noteq> None \<Longrightarrow>
   insertBy compareVolumes x ys = insort_key volKey x ys"
  by (induction ys) (auto simp: compareVolumes_def volKey_def)

lemma sortBy_sort_key:
  "\<forall>v \<in> set xs. volumeNumber v \<noteq> None \<Longrightarrow> sortBy compareVolumes xs = sort_key volKey xs"
proof (induction xs)
  case Nil
  show ?case by (simp add: sortBy_def)
next
  case (Cons x xs)
  then have "sortBy compareVolumes xs = sort_key volKey xs" by simp
  moreover have "sortBy compareVolumes (x # xs) = insertBy compareVolumes x (sortBy compareVolumes xs)"
    by (simp add: sortBy_def)
  moreover have "\<forall>y \<in> set (sort_key volKey xs). volumeNumber y \<noteq> None"
    using Cons.prems by simp
  ultimately show ?case using Cons.prems by (simp add: insertBy_insort_key)
qed

lemma bucketOf_member:
  "v \<in> set (bucketOf table k bs) \<Longrightarrow>
   book v \<in> set bs \<and> (\<exists>nt a n. candidate table (book v) = Some (k, nt, a, n) \<and> volumeNumber v = Some n)"
  by (auto simp: bucketOf_def split: option.splits if_splits) metis

lemma bucketOf_numbered: "\<forall>v \<in> set (bucketOf table k bs). volumeNumber v \<noteq> None"
  using bucketOf_member by fastforce

lemma emit_fold_groups: "seriesGroups (foldl emitSeries t m) = seriesGroups t @ groupsOf m"
  by (induction m arbitrary: t) (auto simp: emitSeries_def groupsOf_def seriesInfoOf_def Let_def)

lemma emit_fold_index: "bookToSeriesMap (foldl emitSeries t m) = indexInto (bookToSeriesMap t) m"
  by (induction m arbitrary: t) (auto simp: emitSeries_def Let_def)

lemma emitSeries_rest:
  "cacheValid (emitSeries t e) = cacheValid t"
  "nextRef (emitSeries t e) = nextRef t"
  "seriesGroupsRef (emitSeries t e) = seriesGroupsRef t"
  "bookToSeriesMapRef (emitSeries t e) = bookToSeriesMapRef t"
  by (cases e; simp add: emitSeries_def Let_def)+

lemma emit_fold_valid: "cacheValid (foldl emitSeries t m) = cacheValid t"
  by (induction m arbitrary: t) (simp_all add: emitSeries_rest)

lemma emit_fold_next: "nextRef (foldl emitSeries t m) = nextRef t"
  by (induction m arbitrary: t) (simp_all add: emitSeries_rest)

lemma emit_fold_groupsRef: "seriesGroupsRef (foldl emitSeries t m) = seriesGroupsRef t"
  by (induction m arbitrary: t) (simp_all add: emitSeries_rest)

lemma emit_fold_indexRef: "bookToSeriesMapRef (foldl emitSeries t m) = bookToSeriesMapRef t"
  by (induction m arbitrary: t) (simp_all add: emitSeries_rest)

lemmas emit_fold_rest = emit_fold_valid emit_fold_next emit_fold_groupsRef emit_fold_indexRef

lemma detect_fst: "fst (detectAndGroupSeries table books this) = seriesCache.truncate (snd (detectAndGroupSeries table books this))"
  by (simp add: detectAndGroupSeries_def Let_def)

lemma detect_hit:
  "cacheValid this \<Longrightarrow> seriesGroups this \<noteq> [] \<Longrightarrow>
   detectAndGroupSeries table books this = (seriesCache.truncate this, this)"
  by (simp add: detectAndGroupSeries_def)

lemma detect_miss:
  assumes "\<not> (cacheValid this \<and> seriesGroups this \<noteq> [])"
  shows "seriesGroups (snd (detectAndGroupSeries table books this)) = groupsOf (scan table books)"
    and "bookToSeriesMap (snd (detectAndGroupSeries table books this)) = indexInto Map.empty (scan table books)"
    and "seriesGroupsRef (snd (detectAndGroupSeries table books this)) = nextRef this"
    and "bookToSeriesMapRef (snd (detectAndGroupSeries table books this)) = nextRef this + 1"
    and "cacheValid (snd (detectAndGroupSeries table books this))"
    and "nextRef (snd (detectAndGroupSeries table books this)) = nextRef this + 2"
proof -
  define T where
    "T = (foldl emitSeries
            (this\<lparr>seriesGroups := [], seriesGroupsRef := nextRef this,
                  bookToSeriesMap := Map.empty, bookToSeriesMapRef := nextRef this + 1,
                  nextRef := nextRef this + 2\<rparr>)
            (scan table books))\<lparr>cacheValid := True\<rparr>"
  have "\<not> (cacheValid this \<and> 0 < length (seriesGroups this))" using assms by simp
  then have "detectAndGroupSeries table books this = (seriesCache.truncate T, T)"
    unfolding detectAndGroupSeries_def T_def scan_def Let_def by (rule if_not_P)
  then have T: "snd (detectAndGroupSeries table books this) = T" by simp
  show "seriesGroups (snd (detectAndGroupSeries table books this)) = groupsOf (scan table books)"
    unfolding T by (simp add: T_def emit_fold_groups)
  show "bookToSeriesMap (snd (detectAndGroupSeries table books this)) = indexInto Map.empty (scan table books)"
    unfolding T by (simp add: T_def emit_fold_index)
  show "seriesGroupsRef (snd (detectAndGroupSeries table books this)) = nextRef this"
    unfolding T by (simp add: T_def emit_fold_groupsRef)
  show "bookToSeriesMapRef (snd (detectAndGroupSeries table books this)) = nextRef this + 1"
    unfolding T by (simp add: T_def emit_fold_indexRef)
  show "cacheValid (snd (detectAndGroupSeries table books this))"
    unfolding T by (simp add: T_def)
  show "nextRef (snd (detectAndGroupSeries table books this)) = nextRef this + 2"
    unfolding T by (simp add: T_def emit_fold_next)
qed

lemma truncate_fields:
  "seriesGroups (seriesCache.truncate t) = seriesGroups t"
  "bookToSeriesMap (seriesCache.truncate t) = bookToSeriesMap t"
  "seriesGroupsRef (seriesCache.truncate t) = seriesGroupsRef t"
  "bookToSeriesMapRef (seriesCache.truncate t) = bookToSeriesMapRef t"
  by (simp_all add: seriesCache.truncate_def)

lemma reachable_cache:
  "reachable table P this \<Longrightarrow> cacheValid this \<Longrightarrow>
   \<exists>bs. P bs \<and> seriesGroups this = groupsOf (scan table bs) \<and>
        bookToSeriesMap this = indexInto Map.empty (scan table bs)"
proof (induction rule: reachable.induct)
  case (constructed n)
  then show ?case by (simp add: newSeriesManager_def)
next
  case (detected this books)
  show ?case
  proof (cases "cacheValid this \<and> seriesGroups this \<noteq> []")
    case True
    then have "snd (detectAndGroupSeries table books this) = this" by (simp add: detect_hit)
    with True detected.IH show ?thesis by simp
  next
    case False
    with detected.hyps(2) show ?thesis using detect_miss(1,2) by blast
  qed
next
  case (cleared this)
  then show ?case by (simp add: clearCache_def)
qed

lemma detect_result:
  assumes "reachable table P this" and "P books"
  shows "\<exists>bs. P bs \<and> (bs = books \<or> (cacheValid this \<and> seriesGroups this \<noteq> [])) \<and>
          seriesGroups (fst (detectAndGroupSeries table books this)) = groupsOf (scan table bs) \<and>
          bookToSeriesMap (fst (detectAndGroupSeries table books this)) = indexInto Map.empty (scan table bs)"
proof (cases "cacheValid this \<and> seriesGroups this \<noteq> []")
  case True
  then have "fst (detectAndGroupSeries table books this) = seriesCache.truncate this"
    by (simp add: detect_hit)
  with True reachable_cache [OF assms(1)] show ?thesis by (auto simp: truncate_fields)
next
  case False
  then show ?thesis using assms(2) detect_miss(1,2) [OF False]
    by (auto simp: detect_fst truncate_fields)
qed

section \<open>What a call returns\<close>

lemma groupsOf_member:
  "si \<in> set (groupsOf m) \<Longrightarrow>
   \<exists>k d. (k, d) \<in> set m \<and> 2 \<le> length (volumes d) \<and> si = seriesInfoOf k d"
  by (auto simp: groupsOf_def)

lemma groupsOf_total:
  "si \<in> set (groupsOf m) \<Longrightarrow> totalVolumes si = length (volumes si) \<and> 2 \<le> totalVolumes si"
  by (auto simp: groupsOf_def seriesInfoOf_def length_sortBy)

lemma scan_entry:
  assumes "(k, d) \<in> set (scan table bs)"
  shows "seriesId d = k \<and> volumes d = bucketOf table k bs"
proof -
  have ok: "bucketsOk table bs (scan table bs)" by (rule bucketsOk_scan)
  then have "distinct (map fst (scan table bs))" by (simp add: bucketsOk_def)
  with assms have "map_of (scan table bs) k = Some d" by simp
  with ok show ?thesis unfolding bucketsOk_def by blast
qed

lemma scan_entry_unique:
  assumes "(k, d) \<in> set (scan table bs)" and "(k, d') \<in> set (scan table bs)"
  shows "d = d'"
proof -
  have dist: "distinct (map fst (scan table bs))"
    using bucketsOk_scan [of table bs] by (simp add: bucketsOk_def)
  have "map_of (scan table bs) k = Some d" by (rule map_of_is_SomeI [OF dist assms(1)])
  moreover have "map_of (scan table bs) k = Some d'" by (rule map_of_is_SomeI [OF dist assms(2)])
  ultimately show ?thesis by (simp only: option.inject)
qed

lemma scanned_series:
  assumes "si \<in> set (groupsOf (scan table bs))"
  shows "volumes si = sort_key volKey (bucketOf table (seriesId si) bs) \<and>
         2 \<le> length (bucketOf table (seriesId si) bs) \<and>
         representativeBook si = book (volumes si ! 0)"
proof -
  from groupsOf_member [OF assms] obtain k d where
    kd: "(k, d) \<in> set (scan table bs)" and two: "2 \<le> length (volumes d)" and si: "si = seriesInfoOf k d"
    by blast
  from scan_entry [OF kd] have vd: "volumes d = bucketOf table k bs" by simp
  have "sortBy compareVolumes (bucketOf table k bs) = sort_key volKey (bucketOf table k bs)"
    by (rule sortBy_sort_key) (rule bucketOf_numbered)
  with vd two si show ?thesis by (simp add: seriesInfoOf_def)
qed

lemma sorted_volumeLe:
  assumes "sorted (map volKey vs)" and "\<forall>v \<in> set vs. volumeNumber v \<noteq> None"
  shows "sorted_wrt volumeLe vs"
proof -
  have "sorted_wrt (\<lambda>a b. volKey a \<le> volKey b) vs" using assms(1) by (simp add: sorted_map)
  then show ?thesis
  proof (rule sorted_wrt_mono_rel [rotated])
    fix a b assume "a \<in> set vs" "b \<in> set vs" "volKey a \<le> volKey b"
    moreover from assms(2) \<open>a \<in> set vs\<close> \<open>b \<in> set vs\<close>
    obtain x y where "volumeNumber a = Some x" "volumeNumber b = Some y" by blast
    ultimately show "volumeLe a b" by (simp add: volumeLe_def volKey_def)
  qed
qed

lemma filter_number_sort:
  assumes "\<forall>v \<in> set xs. volumeNumber v \<noteq> None"
  shows "filter (\<lambda>v. volumeNumber v = Some n) (sort_key volKey xs) =
         filter (\<lambda>v. volumeNumber v = Some n) xs"
proof -
  have key: "v \<in> set xs \<Longrightarrow> (volumeNumber v = Some n) = (volKey v = n)" for v
    using assms by (auto simp: volKey_def)
  have "filter (\<lambda>v. volumeNumber v = Some n) (sort_key volKey xs) =
        filter (\<lambda>v. volKey v = n) (sort_key volKey xs)"
    by (rule filter_cong) (simp_all add: key)
  also have "\<dots> = filter (\<lambda>v. volKey v = n) xs" by (rule sort_key_stable)
  also have "\<dots> = filter (\<lambda>v. volumeNumber v = Some n) xs"
    by (rule filter_cong) (simp_all add: key)
  finally show ?thesis .
qed

lemma scanned_series_ordered:
  assumes "si \<in> set (groupsOf (scan table bs))"
  shows "sorted_wrt volumeLe (volumes si)"
    and "\<forall>v \<in> set (volumes si). volumeNumber v \<noteq> None"
    and "filter (\<lambda>v. volumeNumber v = Some n) (volumes si) =
         filter (\<lambda>v. volumeNumber v = Some n) (bucketOf table (seriesId si) bs)"
    and "volumes si \<noteq> []"
    and "representativeBook si = book (volumes si ! 0)"
proof -
  let ?b = "bucketOf table (seriesId si) bs"
  from scanned_series [OF assms] have v: "volumes si = sort_key volKey ?b"
    and two: "2 \<le> length ?b" and r: "representativeBook si = book (volumes si ! 0)" by simp_all
  have num: "\<forall>v \<in> set ?b. volumeNumber v \<noteq> None" by (rule bucketOf_numbered)
  show "\<forall>v \<in> set (volumes si). volumeNumber v \<noteq> None" using num by (simp add: v)
  then show "sorted_wrt volumeLe (volumes si)"
    by (intro sorted_volumeLe) (simp_all add: v)
  show "filter (\<lambda>v. volumeNumber v = Some n) (volumes si) =
        filter (\<lambda>v. volumeNumber v = Some n) ?b"
    unfolding v using num by (rule filter_number_sort)
  have "length (volumes si) = length ?b" by (simp add: v)
  with two show "volumes si \<noteq> []" by auto
  show "representativeBook si = book (volumes si ! 0)" by (rule r)
qed

lemma fold_index_update:
  "foldl (\<lambda>m v. m(asin (book v) \<mapsto> k)) ix vs a =
     (if a \<in> asin ` book ` set vs then Some k else ix a)"
  by (induction vs arbitrary: ix) auto

lemma indexInto_Some:
  "indexInto ix m a = Some sid \<Longrightarrow>
   ix a = Some sid \<or>
   (\<exists>d. (sid, d) \<in> set m \<and> 2 \<le> length (volumes d) \<and> a \<in> asin ` book ` set (volumes d))"
proof (induction ix m rule: indexInto.induct)
  case (1 ix)
  then show ?case by simp
next
  case (2 ix k d m)
  let ?ix = "if 2 \<le> length (volumes d)
             then foldl (\<lambda>m v. m(asin (book v) \<mapsto> k)) ix (sortBy compareVolumes (volumes d))
             else ix"
  from "2.prems" have "indexInto ?ix m a = Some sid" by simp
  from "2.IH" [OF this] consider "?ix a = Some sid"
    | "\<exists>d. (sid, d) \<in> set m \<and> 2 \<le> length (volumes d) \<and> a \<in> asin ` book ` set (volumes d)"
    by blast
  then show ?case
  proof cases
    case 1
    then show ?thesis
      by (auto simp: fold_index_update set_sortBy split: if_splits)
  next
    case 2
    then show ?thesis by auto
  qed
qed

lemma indexInto_keeps: "ix a \<noteq> None \<Longrightarrow> indexInto ix m a \<noteq> None"
proof (induction ix m rule: indexInto.induct)
  case (1 ix)
  then show ?case by simp
next
  case (2 ix k d m)
  then show ?case by (simp add: fold_index_update)
qed

lemma indexInto_dom:
  "(k, d) \<in> set m \<Longrightarrow> 2 \<le> length (volumes d) \<Longrightarrow> a \<in> asin ` book ` set (volumes d) \<Longrightarrow>
   indexInto ix m a \<noteq> None"
proof (induction ix m rule: indexInto.induct)
  case (1 ix)
  then show ?case by simp
next
  case (2 ix k' d' m)
  show ?case
  proof (cases "(k, d) = (k', d')")
    case True
    let ?ix = "foldl (\<lambda>m v. m(asin (book v) \<mapsto> k')) ix (sortBy compareVolumes (volumes d'))"
    from True "2.prems" have "?ix a = Some k'"
      by (simp add: fold_index_update set_sortBy)
    then have "indexInto ?ix m a \<noteq> None" by (intro indexInto_keeps) simp
    with True "2.prems" show ?thesis by simp
  next
    case False
    with "2.prems" have "(k, d) \<in> set m" by auto
    from "2.IH" [OF this "2.prems"(2,3)] show ?thesis by simp
  qed
qed

lemma groupsOf_volumeIds:
  assumes "si \<in> set (groupsOf (scan table bs))" and "a \<in> volumeIds si"
  shows "\<exists>b \<in> set bs. asin b = a \<and> (\<exists>nt au n. candidate table b = Some (seriesId si, nt, au, n))"
proof -
  from scanned_series [OF assms(1)] have "set (volumes si) = set (bucketOf table (seriesId si) bs)"
    by simp
  with assms(2) obtain v where "v \<in> set (bucketOf table (seriesId si) bs)" and "asin (book v) = a"
    by (auto simp: volumeIds_def)
  with bucketOf_member [of v table "seriesId si" bs] show ?thesis by blast
qed

lemma groupsOf_same_id:
  assumes "si \<in> set (groupsOf (scan table bs))" and "si' \<in> set (groupsOf (scan table bs))"
      and "seriesId si = seriesId si'"
  shows "si = si'"
proof -
  from groupsOf_member [OF assms(1)] obtain k d where
    kd: "(k, d) \<in> set (scan table bs)" and si: "si = seriesInfoOf k d" by blast
  from groupsOf_member [OF assms(2)] obtain k' d' where
    kd': "(k', d') \<in> set (scan table bs)" and si': "si' = seriesInfoOf k' d'" by blast
  from assms(3) si si' have "k = k'" by (simp add: seriesInfoOf_def)
  with kd kd' have "d = d'" by (auto intro: scan_entry_unique)
  with \<open>k = k'\<close> si si' show ?thesis by simp
qed

lemma groupsOf_disjoint:
  assumes "distinctIds bs"
      and "si \<in> set (groupsOf (scan table bs))" and "si' \<in> set (groupsOf (scan table bs))"
      and "a \<in> volumeIds si" and "a \<in> volumeIds si'"
  shows "si = si'"
proof -
  from groupsOf_volumeIds [OF assms(2,4)] obtain b nt au n where
    b: "b \<in> set bs" "asin b = a" "candidate table b = Some (seriesId si, nt, au, n)" by blast
  from groupsOf_volumeIds [OF assms(3,5)] obtain b' nt' au' n' where
    b': "b' \<in> set bs" "asin b' = a" "candidate table b' = Some (seriesId si', nt', au', n')" by blast
  from assms(1) have "inj_on asin (set bs)" by (simp add: distinctIds_def distinct_map)
  with b(1,2) b'(1,2) have "b = b'" by (auto dest: inj_onD)
  with b(3) b'(3) have "seriesId si = seriesId si'" by simp
  with assms(2,3) show ?thesis by (rule groupsOf_same_id)
qed

lemma index_key_series:
  assumes "indexInto Map.empty (scan table bs) a = Some sid"
  shows "\<exists>si \<in> set (groupsOf (scan table bs)). seriesId si = sid \<and> a \<in> volumeIds si"
proof -
  from indexInto_Some [OF assms] obtain d where
    d: "(sid, d) \<in> set (scan table bs)" "2 \<le> length (volumes d)" "a \<in> asin ` book ` set (volumes d)"
    by auto
  then have "seriesInfoOf sid d \<in> set (groupsOf (scan table bs))" by (force simp: groupsOf_def)
  moreover have "seriesId (seriesInfoOf sid d) = sid" by (simp add: seriesInfoOf_def)
  moreover have "a \<in> volumeIds (seriesInfoOf sid d)"
    using d(3) by (simp add: volumeIds_def seriesInfoOf_def set_sortBy)
  ultimately show ?thesis by blast
qed

lemma series_member_indexed:
  assumes "si \<in> set (groupsOf (scan table bs))" and "a \<in> volumeIds si"
  shows "indexInto Map.empty (scan table bs) a \<noteq> None"
proof -
  from groupsOf_member [OF assms(1)] obtain k d where
    kd: "(k, d) \<in> set (scan table bs)" "2 \<le> length (volumes d)" and si: "si = seriesInfoOf k d" by blast
  from assms(2) si have "a \<in> asin ` book ` set (volumes d)"
    by (simp add: volumeIds_def seriesInfoOf_def set_sortBy)
  with kd show ?thesis by (rule indexInto_dom)
qed

lemma lowerAscii_sameLetter:
  "\<not> (0x41 \<le> b \<and> b \<le> 0x5A) \<Longrightarrow> (lowerAscii a = b) = sameLetter a b"
  by (auto simp: sameLetter_def lowerAscii_def)

lemma map_lowerAscii_equalsIgnoreCase:
  "\<forall>b \<in> set s. \<not> (0x41 \<le> b \<and> b \<le> 0x5A) \<Longrightarrow> (map lowerAscii r = s) = equalsIgnoreCase r s"
proof (induction r arbitrary: s)
  case Nil
  show ?case by (auto simp: equalsIgnoreCase_def)
next
  case (Cons a r)
  show ?case
  proof (cases s)
    case Nil
    then show ?thesis by (simp add: equalsIgnoreCase_def)
  next
    case (Cons b s')
    with Cons.prems have b: "\<not> (0x41 \<le> b \<and> b \<le> 0x5A)"
      and s': "\<forall>b \<in> set s'. \<not> (0x41 \<le> b \<and> b \<le> 0x5A)"
      by simp_all
    from Cons.IH [OF s'] have "(map lowerAscii r = s') = equalsIgnoreCase r s'" .
    with lowerAscii_sameLetter [OF b, of a] Cons show ?thesis
      by (simp add: equalsIgnoreCase_def)
  qed
qed

lemma concat_singletons: "concat (map (\<lambda>i. [g i]) xs) = map g xs"
  by (induction xs) simp_all

lemma toLowerCase_ascii:
  assumes "\<forall>c \<in> set s. c < 0x80"
  shows "toLowerCase table s = map lowerAscii s"
proof -
  have eq: "map (lowerAt table s) [0..<length s] =
            map (\<lambda>i. [lowerAscii (s ! i)]) [0..<length s]"
    using assms by (intro map_cong) (simp_all add: lowerAt_def)
  have "toLowerCase table s = concat (map (\<lambda>i. [lowerAscii (s ! i)]) [0..<length s])"
    unfolding toLowerCase_def eq ..
  also have "\<dots> = map (\<lambda>i. lowerAscii (s ! i)) [0..<length s]" by (rule concat_singletons)
  also have "\<dots> = map lowerAscii (map (\<lambda>i. s ! i) [0..<length s])" by simp
  also have "\<dots> = map lowerAscii s" by (simp only: map_nth)
  finally show ?thesis .
qed

lemma lowerAt_outside:
  "\<not> s ! i < 0x80 \<Longrightarrow> \<exists>u \<in> set (lowerAt table s i). u = 0x6B \<or> 0x80 \<le> u"
  by (auto simp: lowerAt_def Let_def list_ex_iff)

lemma toLowerCase_outside:
  assumes "\<not> (\<forall>c \<in> set s. c < 0x80)"
  shows "\<exists>u \<in> set (toLowerCase table s). u = 0x6B \<or> 0x80 \<le> u"
proof -
  from assms obtain i where i: "i < length s" and "\<not> s ! i < 0x80"
    by (auto simp: in_set_conv_nth)
  from lowerAt_outside [OF this(2)] obtain u where
    "u \<in> set (lowerAt table s i)" and u: "u = 0x6B \<or> 0x80 \<le> u" by blast
  with i have "u \<in> set (toLowerCase table s)" by (auto simp: toLowerCase_def)
  with u show ?thesis by blast
qed

lemma below_upper_bound: "(a::char16) \<le> 0x5A \<Longrightarrow> a < 0x80"
  by unat_arith

lemma lowered_upper_bound: "(b::char16) \<le> 0x5A \<Longrightarrow> b + 0x20 < 0x80"
  by unat_arith

lemma sameLetter_ascii:
  assumes "sameLetter a b" and "b < 0x80"
  shows "a < 0x80"
proof -
  from assms(1) consider "a = b" | "a \<le> 0x5A" | "b \<le> 0x5A" "a = b + 0x20"
    unfolding sameLetter_def by blast
  then show ?thesis
  proof cases
    case 1
    with assms(2) show ?thesis by simp
  next
    case 2
    then show ?thesis by (rule below_upper_bound)
  next
    case 3
    then show ?thesis by (simp add: lowered_upper_bound)
  qed
qed

lemma list_all2_left: "list_all2 P xs ys \<Longrightarrow> x \<in> set xs \<Longrightarrow> \<exists>y \<in> set ys. P x y"
  by (induction rule: list_all2_induct) auto

lemma equalsIgnoreCase_readWord_ascii:
  assumes "equalsIgnoreCase r readWord"
  shows "\<forall>c \<in> set r. c < 0x80"
proof
  fix c assume c: "c \<in> set r"
  from assms have "list_all2 sameLetter r readWord" by (simp add: equalsIgnoreCase_def)
  from list_all2_left [OF this c] obtain b where
    b: "b \<in> set readWord" and s: "sameLetter c b" by blast
  from b have "b = 0x72 \<or> b = 0x65 \<or> b = 0x61 \<or> b = 0x64" by (simp add: readWord_def)
  then have "b < 0x80" by (elim disjE) simp_all
  with s show "c < 0x80" by (rule sameLetter_ascii)
qed

lemma toLowerCase_readWord:
  "(toLowerCase table r = readWord) = equalsIgnoreCase r readWord"
proof (cases "\<forall>c \<in> set r. c < 0x80")
  case True
  have "(map lowerAscii r = readWord) = equalsIgnoreCase r readWord"
    by (rule map_lowerAscii_equalsIgnoreCase) (simp add: readWord_def)
  with True show ?thesis by (simp add: toLowerCase_ascii)
next
  case False
  from toLowerCase_outside [OF this] obtain u where
    "u \<in> set (toLowerCase table r)" and "u = 0x6B \<or> 0x80 \<le> u" by blast
  then have "toLowerCase table r \<noteq> readWord" by (auto simp: readWord_def)
  moreover from False have "\<not> equalsIgnoreCase r readWord"
    using equalsIgnoreCase_readWord_ascii by blast
  ultimately show ?thesis by simp
qed

lemma isRead_iff:
  "isRead table b =
     (case readStatus b of None \<Rightarrow> False | Some r \<Rightarrow> equalsIgnoreCase r readWord)"
proof (cases "readStatus b")
  case None
  then show ?thesis by (simp add: isRead_def)
next
  case (Some r)
  have "equalsIgnoreCase r readWord \<Longrightarrow> r \<noteq> []"
    by (auto simp: equalsIgnoreCase_def readWord_def)
  with toLowerCase_readWord [of table r] Some show ?thesis
    by (auto simp: isRead_def readWord_def)
qed

lemma count_fold:
  "foldl (\<lambda>read v. if P v then read + 1 else read) (n::int) vs = n + int (length (filter P vs))"
  by (induction vs arbitrary: n) simp_all

lemma reachable_refs:
  "reachable table P this \<Longrightarrow> seriesGroupsRef this < nextRef this \<and> bookToSeriesMapRef this < nextRef this"
proof (induction rule: reachable.induct)
  case (constructed n)
  show ?case by (simp add: newSeriesManager_def)
next
  case (detected this books)
  show ?case
  proof (cases "cacheValid this \<and> seriesGroups this \<noteq> []")
    case True
    with detected.IH show ?thesis by (simp add: detect_hit)
  next
    case False
    then show ?thesis by (simp add: detect_miss)
  qed
next
  case (cleared this)
  show ?case by (simp add: clearCache_def)
qed

lemma detect_after:
  "cacheValid (snd (detectAndGroupSeries table books this))"
  "nextRef this \<le> nextRef (snd (detectAndGroupSeries table books this))"
  by (cases "cacheValid this \<and> seriesGroups this \<noteq> []"; simp add: detect_hit detect_miss)+

lemma clearCache_miss: "\<not> (cacheValid (clearCache this) \<and> seriesGroups (clearCache this) \<noteq> [])"
  by (simp add: clearCache_def)

lemma newSeriesManager_miss:
  "\<not> (cacheValid (newSeriesManager n) \<and> seriesGroups (newSeriesManager n) \<noteq> [])"
  by (simp add: newSeriesManager_def)

lemma scanned_index:
  assumes "distinctIds bs"
  shows "indexInto Map.empty (scan table bs) a = Some sid \<Longrightarrow>
           (\<exists>!si. si \<in> set (groupsOf (scan table bs)) \<and> a \<in> volumeIds si) \<and>
           (\<forall>si \<in> set (groupsOf (scan table bs)). a \<in> volumeIds si \<longrightarrow> seriesId si = sid)"
    and "si \<in> set (groupsOf (scan table bs)) \<Longrightarrow> a \<in> volumeIds si \<Longrightarrow>
           indexInto Map.empty (scan table bs) a = Some (seriesId si)"
proof -
  have one: "(\<exists>!si. si \<in> set (groupsOf (scan table bs)) \<and> a \<in> volumeIds si) \<and>
             (\<forall>si \<in> set (groupsOf (scan table bs)). a \<in> volumeIds si \<longrightarrow> seriesId si = sid)"
    if "indexInto Map.empty (scan table bs) a = Some sid" for a sid
  proof -
    from index_key_series [OF that] obtain si where
      si: "si \<in> set (groupsOf (scan table bs))" "seriesId si = sid" "a \<in> volumeIds si"
      by blast
    have same: "si' = si" if "si' \<in> set (groupsOf (scan table bs))" "a \<in> volumeIds si'" for si'
      using assms that si(1,3) by (auto intro: groupsOf_disjoint)
    with si show ?thesis by blast
  qed
  show "indexInto Map.empty (scan table bs) a = Some sid \<Longrightarrow>
          (\<exists>!si. si \<in> set (groupsOf (scan table bs)) \<and> a \<in> volumeIds si) \<and>
          (\<forall>si \<in> set (groupsOf (scan table bs)). a \<in> volumeIds si \<longrightarrow> seriesId si = sid)"
    by (rule one)
  show "indexInto Map.empty (scan table bs) a = Some (seriesId si)"
    if "si \<in> set (groupsOf (scan table bs))" "a \<in> volumeIds si"
  proof -
    from that have "indexInto Map.empty (scan table bs) a \<noteq> None"
      by (rule series_member_indexed)
    then obtain sid where sid: "indexInto Map.empty (scan table bs) a = Some sid" by blast
    from one [OF sid] that have "seriesId si = sid" by blast
    with sid show ?thesis by simp
  qed
qed

lemma scanned_bucket_series:
  assumes "2 \<le> length (bucketOf table k bs)"
  shows "\<exists>si \<in> set (groupsOf (scan table bs)).
           seriesId si = k \<and> volumeIds si = asin ` book ` set (bucketOf table k bs)"
proof -
  have ok: "bucketsOk table bs (scan table bs)" by (rule bucketsOk_scan)
  from assms have "bucketOf table k bs \<noteq> []" by auto
  with ok have "map_of (scan table bs) k \<noteq> None" unfolding bucketsOk_def by blast
  then obtain d where d: "map_of (scan table bs) k = Some d" by blast
  with ok have v: "volumes d = bucketOf table k bs" unfolding bucketsOk_def by blast
  from d have "(k, d) \<in> set (scan table bs)" by (rule map_of_SomeD)
  with assms v have "seriesInfoOf k d \<in> set (groupsOf (scan table bs))"
    by (force simp: groupsOf_def)
  moreover have "seriesId (seriesInfoOf k d) = k" by (simp add: seriesInfoOf_def)
  moreover have "volumeIds (seriesInfoOf k d) = asin ` book ` set (bucketOf table k bs)"
    by (simp add: volumeIds_def seriesInfoOf_def set_sortBy v)
  ultimately show ?thesis by blast
qed

lemma detect_snd_index:
  "bookToSeriesMap (snd (detectAndGroupSeries table books this)) =
   bookToSeriesMap (fst (detectAndGroupSeries table books this))"
  by (simp add: detect_fst truncate_fields)

section \<open>The examples, evaluated\<close>

lemma example_groups:
  "seriesGroups (fst (detectAndGroupSeries table exampleBooks (newSeriesManager 0))) =
   [exampleSeries]"
  by code_simp

lemma example_reachable: "reachable table P (newSeriesManager 0)"
  by (rule reachable.constructed)

lemma extract_colonTitle: "extractVolumeNumber colonTitle = (Some 27, exampleSeriesName)"
  by code_simp

lemma extract_parenTitle: "extractVolumeNumber parenTitle = (Some 28, exampleSeriesName)"
  by code_simp

lemma normalizeForId_exampleSeriesName:
  "normalizeForId table exampleSeriesName = exampleSeriesId"
  by code_simp

lemma extract_tildeTitle1: "extractVolumeNumber tildeTitle1 = (Some 1, [])"
  by code_simp

lemma extract_tildeTitle2: "extractVolumeNumber tildeTitle2 = (Some 2, [])"
  by code_simp

lemma candidate_titled:
  assumes "title b = Some t" and "authors b = Some a" and "a \<noteq> []" and "t \<noteq> []"
      and "extractVolumeNumber t = (Some n, nt)"
  shows "candidate table b = Some (normalizeForId table nt, nt, a, n)"
  using assms by (simp add: candidate_def generateSeriesId_def)

lemma scan_pair:
  assumes "candidate table b1 = Some (k, nt, a1, n1)" and "candidate table b2 = Some (k, nt', a2, n2)"
  shows "scan table [b1, b2] =
           [(k, \<lparr>seriesId = k, seriesName = nt, seriesAuthors = a1,
                 volumes = [\<lparr>book = b1, volumeNumber = Some n1\<rparr>,
                            \<lparr>book = b2, volumeNumber = Some n2\<rparr>]\<rparr>)]"
  using assms by (simp add: scan_def collectBook_candidate mapHas_def pushVolume_def)

lemma groups_pair:
  assumes "candidate table b1 = Some (k, nt, a1, n1)" and "candidate table b2 = Some (k, nt', a2, n2)"
      and "n1 \<le> n2"
  shows "groupsOf (scan table [b1, b2]) =
           [\<lparr>seriesId = k, seriesName = nt, seriesAuthors = a1,
             volumes = [\<lparr>book = b1, volumeNumber = Some n1\<rparr>,
                        \<lparr>book = b2, volumeNumber = Some n2\<rparr>],
             representativeBook = b1, totalVolumes = 2\<rparr>]"
  using assms(3)
  by (simp add: scan_pair [OF assms(1,2)] groupsOf_def seriesInfoOf_def sortBy_def
                compareVolumes_def)

lemma index_pair:
  assumes "candidate table b1 = Some (k, nt, a1, n1)" and "candidate table b2 = Some (k, nt', a2, n2)"
  shows "indexInto Map.empty (scan table [b1, b2]) (asin b1) = Some k"
    and "indexInto Map.empty (scan table [b1, b2]) (asin b2) = Some k"
  by (simp_all add: scan_pair [OF assms(1,2)] fold_index_update set_sortBy)

text \<open>The double nearest to \<open>2 ^ 53 + 1\<close> is \<open>2 ^ 53\<close>. In \<open>roundedBooks\<close> both volume
  numbers are that double: the sort leaves the books in the order of the input, and the
  representative book is the first of the input.\<close>

lemma roundToDouble_example: "roundToDouble 9007199254740993 = 9007199254740992"
  by (simp add: roundToDouble_def Let_def)

lemma extract_roundedTitleH:
  "extractVolumeNumber roundedTitleH = (Some 9007199254740992, [0x53])"
proof -
  have p1: "regexMatch prefixVolumePattern (normalizeString roundedTitleH) = None"
    by code_simp
  have p2: "regexMatch prefixRangePattern (normalizeString roundedTitleH) = None"
    by code_simp
  have m: "firstMatch patterns (normalizeString roundedTitleH) =
           Some [roundedTitleH, [0x53], drop 2 roundedTitleH]"
    by code_simp
  have n: "parseInt10 (drop 2 roundedTitleH) = 9007199254740992"
    by (simp add: roundedTitleH_def parseInt10_def toNumber_def roundToDouble_def Let_def)
  have k: "kanjiToNumber (drop 2 roundedTitleH) = None" by code_simp
  have c: "trim (stripTrailingSeparators (trim [0x53])) = [0x53]" by code_simp
  have ne: "roundedTitleH \<noteq> []" by (simp add: roundedTitleH_def)
  show ?thesis by (simp add: extractVolumeNumber_def p1 p2 m n k c ne Let_def)
qed

lemma extract_roundedTitleL:
  "extractVolumeNumber roundedTitleL = (Some 9007199254740992, [0x53])"
proof -
  have p1: "regexMatch prefixVolumePattern (normalizeString roundedTitleL) = None"
    by code_simp
  have p2: "regexMatch prefixRangePattern (normalizeString roundedTitleL) = None"
    by code_simp
  have m: "firstMatch patterns (normalizeString roundedTitleL) =
           Some [roundedTitleL, [0x53], drop 2 roundedTitleL]"
    by code_simp
  have n: "parseInt10 (drop 2 roundedTitleL) = 9007199254740992"
    by (simp add: roundedTitleL_def parseInt10_def toNumber_def roundToDouble_def Let_def)
  have k: "kanjiToNumber (drop 2 roundedTitleL) = None" by code_simp
  have c: "trim (stripTrailingSeparators (trim [0x53])) = [0x53]" by code_simp
  have ne: "roundedTitleL \<noteq> []" by (simp add: roundedTitleL_def)
  show ?thesis by (simp add: extractVolumeNumber_def p1 p2 m n k c ne Let_def)
qed

lemma roundedBooks_groups:
  "seriesGroups (fst (detectAndGroupSeries table roundedBooks (newSeriesManager 0))) =
     [\<lparr>seriesId = [0x73], seriesName = [0x53], seriesAuthors = [0x41],
       volumes =
         [\<lparr>book = exampleBook [0x48] roundedTitleH, volumeNumber = Some 9007199254740992\<rparr>,
          \<lparr>book = exampleBook [0x4C] roundedTitleL, volumeNumber = Some 9007199254740992\<rparr>],
       representativeBook = exampleBook [0x48] roundedTitleH, totalVolumes = 2\<rparr>]"
proof -
  have i: "normalizeForId table [0x53] = [0x73]" by code_simp
  have c1: "candidate table (exampleBook [0x48] roundedTitleH) =
            Some ([0x73], [0x53], [0x41], 9007199254740992)"
    using candidate_titled [OF _ _ _ _ extract_roundedTitleH, of "exampleBook [0x48] roundedTitleH"
                               "[0x41]" table]
    by (simp add: exampleBook_def i roundedTitleH_def)
  have c2: "candidate table (exampleBook [0x4C] roundedTitleL) =
            Some ([0x73], [0x53], [0x41], 9007199254740992)"
    using candidate_titled [OF _ _ _ _ extract_roundedTitleL, of "exampleBook [0x4C] roundedTitleL"
                               "[0x41]" table]
    by (simp add: exampleBook_def i roundedTitleL_def)
  have "seriesGroups (fst (detectAndGroupSeries table roundedBooks (newSeriesManager 0))) =
        groupsOf (scan table roundedBooks)"
    by (simp add: detect_fst truncate_fields detect_miss [OF newSeriesManager_miss])
  then show ?thesis by (simp add: roundedBooks_def groups_pair [OF c1 c2])
qed

section \<open>The series that are emitted\<close>

text \<open>
  Claim C1: for every input, every SeriesInfo that \<^verbatim>\<open>detectAndGroupSeries\<close> returns (computed
  by this call, or by the earlier call whose result is cached) has \<^verbatim>\<open>totalVolumes\<close> equal to
  the length of \<^verbatim>\<open>volumes\<close>, and at least 2. This holds whatever the case conversion of the
  engine is.
\<close>

theorem detectAndGroupSeries_totalVolumes:
  assumes "reachable table (\<lambda>books. True) this"
      and "si \<in> set (seriesGroups (fst (detectAndGroupSeries table books this)))"
  shows "totalVolumes si = length (volumes si) \<and> 2 \<le> totalVolumes si"
proof -
  from detect_result [OF assms(1), of books] obtain bs where
    "seriesGroups (fst (detectAndGroupSeries table books this)) = groupsOf (scan table bs)" by auto
  with assms(2) have "si \<in> set (groupsOf (scan table bs))" by simp
  then show ?thesis by (rule groupsOf_total)
qed

theorem detectAndGroupSeries_totalVolumes_witness:
  "exampleSeries \<in>
     set (seriesGroups (fst (detectAndGroupSeries noTable exampleBooks (newSeriesManager 0)))) \<and>
   totalVolumes exampleSeries = length (volumes exampleSeries) \<and>
   2 \<le> totalVolumes exampleSeries"
proof -
  have m: "exampleSeries \<in>
           set (seriesGroups (fst (detectAndGroupSeries noTable exampleBooks (newSeriesManager 0))))"
    by (simp add: example_groups)
  from detectAndGroupSeries_totalVolumes [where table = noTable, OF example_reachable m] m show ?thesis by simp
qed

text \<open>
  Claim C3: in every SeriesInfo that \<^verbatim>\<open>detectAndGroupSeries\<close> returns, the volumes are in
  non-decreasing order of their number (the number as the program has it, a double) with the
  entries without a number last (there are none), the entries of one number stand in the
  order in which the scanned input has them, and the representative book is the book of the
  volume at position 0. The scanned input is the argument, unless the call is answered from
  the cache.
\<close>

theorem detectAndGroupSeries_volumes_sorted:
  assumes "reachable table (\<lambda>books. True) this"
  shows "\<exists>scanned. (scanned = books \<or> (cacheValid this \<and> seriesGroups this \<noteq> [])) \<and>
           (\<forall>si \<in> set (seriesGroups (fst (detectAndGroupSeries table books this))).
              sorted_wrt volumeLe (volumes si) \<and>
              (\<forall>v \<in> set (volumes si). volumeNumber v \<noteq> None) \<and>
              (\<forall>n. filter (\<lambda>v. volumeNumber v = Some n) (volumes si) =
                   filter (\<lambda>v. volumeNumber v = Some n) (bucketOf table (seriesId si) scanned)) \<and>
              volumes si \<noteq> [] \<and>
              representativeBook si = book (volumes si ! 0))"
proof -
  from detect_result [OF assms, of books] obtain bs where
    bs: "bs = books \<or> (cacheValid this \<and> seriesGroups this \<noteq> [])" and
    g: "seriesGroups (fst (detectAndGroupSeries table books this)) = groupsOf (scan table bs)" by auto
  show ?thesis
  proof (intro exI [of _ bs] conjI ballI allI)
    show "bs = books \<or> (cacheValid this \<and> seriesGroups this \<noteq> [])" by (rule bs)
  next
    fix si assume "si \<in> set (seriesGroups (fst (detectAndGroupSeries table books this)))"
    then have si: "si \<in> set (groupsOf (scan table bs))" by (simp add: g)
    show "sorted_wrt volumeLe (volumes si)" by (rule scanned_series_ordered(1) [OF si])
    show "volumes si \<noteq> []" by (rule scanned_series_ordered(4) [OF si])
    show "representativeBook si = book (volumes si ! 0)" by (rule scanned_series_ordered(5) [OF si])
    show "filter (\<lambda>v. volumeNumber v = Some n) (volumes si) =
          filter (\<lambda>v. volumeNumber v = Some n) (bucketOf table (seriesId si) bs)" for n
      by (rule scanned_series_ordered(3) [OF si])
    show "volumeNumber v \<noteq> None" if "v \<in> set (volumes si)" for v
      using scanned_series_ordered(2) [OF si] that by blast
  qed
qed

theorem detectAndGroupSeries_volumes_sorted_witness:
  "(\<exists>scanned.
      (scanned = exampleBooks \<or>
       (cacheValid (newSeriesManager 0) \<and> seriesGroups (newSeriesManager 0) \<noteq> [])) \<and>
      (\<forall>si \<in> set (seriesGroups
                     (fst (detectAndGroupSeries noTable exampleBooks (newSeriesManager 0)))).
         sorted_wrt volumeLe (volumes si) \<and>
         (\<forall>v \<in> set (volumes si). volumeNumber v \<noteq> None) \<and>
         (\<forall>n. filter (\<lambda>v. volumeNumber v = Some n) (volumes si) =
              filter (\<lambda>v. volumeNumber v = Some n) (bucketOf noTable (seriesId si) scanned)) \<and>
         volumes si \<noteq> [] \<and>
         representativeBook si = book (volumes si ! 0))) \<and>
   seriesGroups (fst (detectAndGroupSeries noTable exampleBooks (newSeriesManager 0))) =
     [exampleSeries]"
  using detectAndGroupSeries_volumes_sorted
          [where table = noTable and books = exampleBooks, OF example_reachable]
        example_groups [of noTable]
  by blast

section \<open>The index from books to series\<close>

text \<open>
  Claim C2: a book record has a unique identifier (sections 3 and 6 of the specification),
  so the inputs are those in which no two books share their identifier. For every such
  input, given to a manager that has been given such inputs only: after
  \<^verbatim>\<open>detectAndGroupSeries\<close> every identifier that is a key of the index stands in the volumes of
  exactly one SeriesInfo, whose \<^verbatim>\<open>seriesId\<close> is the value of the index; an identifier that stands
  in the volumes of no SeriesInfo is not a key; and every identifier in the volumes of a
  SeriesInfo is a key.
\<close>

theorem detectAndGroupSeries_index_distinct_ids:
  assumes "reachable table distinctIds this" and "distinctIds books"
  defines "r \<equiv> fst (detectAndGroupSeries table books this)"
  shows "(\<forall>a sid. bookToSeriesMap r a = Some sid \<longrightarrow>
            (\<exists>!si. si \<in> set (seriesGroups r) \<and> a \<in> volumeIds si) \<and>
            (\<forall>si \<in> set (seriesGroups r). a \<in> volumeIds si \<longrightarrow> seriesId si = sid)) \<and>
         (\<forall>a. (\<forall>si \<in> set (seriesGroups r). a \<notin> volumeIds si) \<longrightarrow> bookToSeriesMap r a = None) \<and>
         (\<forall>si \<in> set (seriesGroups r). \<forall>a \<in> volumeIds si.
            bookToSeriesMap r a = Some (seriesId si))"
proof -
  from detect_result [OF assms(1,2)] obtain bs where
    bs: "distinctIds bs" and g: "seriesGroups r = groupsOf (scan table bs)" and
    ix: "bookToSeriesMap r = indexInto Map.empty (scan table bs)" unfolding r_def by auto
  note one = scanned_index(1) [OF bs, of table, folded g ix]
  note member = scanned_index(2) [OF bs, of _ table, folded g ix]
  have absent: "bookToSeriesMap r a = None"
    if "\<forall>si \<in> set (seriesGroups r). a \<notin> volumeIds si" for a
  proof (cases "bookToSeriesMap r a")
    case None
    then show ?thesis .
  next
    case (Some sid)
    from one [OF this] that show ?thesis by blast
  qed
  from one absent member show ?thesis by blast
qed

theorem detectAndGroupSeries_index_distinct_ids_witness:
  "distinctIds exampleBooks \<and>
   bookToSeriesMap (fst (detectAndGroupSeries noTable exampleBooks (newSeriesManager 0)))
     [0x42, 0x31] = Some [0x73] \<and>
   (\<exists>!si. si \<in> set (seriesGroups
                      (fst (detectAndGroupSeries noTable exampleBooks (newSeriesManager 0)))) \<and>
          [0x42, 0x31] \<in> volumeIds si) \<and>
   bookToSeriesMap (fst (detectAndGroupSeries noTable exampleBooks (newSeriesManager 0)))
     [0x42, 0x34] = None"
proof -
  have d: "distinctIds exampleBooks" by code_simp
  have k: "bookToSeriesMap (fst (detectAndGroupSeries noTable exampleBooks (newSeriesManager 0)))
             [0x42, 0x31] = Some [0x73]"
    by code_simp
  have n: "\<forall>si \<in> set (seriesGroups
                      (fst (detectAndGroupSeries noTable exampleBooks (newSeriesManager 0)))).
             [0x42, 0x34] \<notin> volumeIds si"
    unfolding example_groups by code_simp
  from detectAndGroupSeries_index_distinct_ids [where table = noTable, OF example_reachable d]
       d k n
  show ?thesis by blast
qed

section \<open>The cache\<close>

text \<open>
  Claim C4, as it is stated for every input, fails when the first call finds no series: the
  cache is then valid and empty, and the test of line 35 lets the second call scan again.
  From a new manager, a second call on the empty input returns a new list object, and a
  second call on \<open>exampleBooks\<close> returns the series of that input. (The inputs are ASCII:
  no case table is consulted.)
\<close>

theorem memoization_empty_counterexample:
  "seriesGroupsRef
     (fst (detectAndGroupSeries noTable []
             (snd (detectAndGroupSeries noTable [] (newSeriesManager 0))))) \<noteq>
   seriesGroupsRef (fst (detectAndGroupSeries noTable [] (newSeriesManager 0))) \<and>
   seriesGroups (fst (detectAndGroupSeries noTable [] (newSeriesManager 0))) = [] \<and>
   seriesGroups
     (fst (detectAndGroupSeries noTable exampleBooks
             (snd (detectAndGroupSeries noTable [] (newSeriesManager 0))))) =
   [exampleSeries]"
  by code_simp

text \<open>
  Claim C4, amended: when a call of \<^verbatim>\<open>detectAndGroupSeries\<close> has returned a series list that is
  not empty, a second call without \<^verbatim>\<open>clearCache\<close> between them returns the same list and index
  objects and leaves the manager as it is, for every argument of the second call. After
  \<^verbatim>\<open>clearCache\<close>, on every manager, the next call returns what a new manager returns for its
  argument, in objects that are not the ones the manager held before.
\<close>

theorem detectAndGroupSeries_memoized_nonempty:
  assumes "reachable table (\<lambda>books. True) this"
  shows "(seriesGroups (fst (detectAndGroupSeries table books this)) \<noteq> [] \<longrightarrow>
            detectAndGroupSeries table books' (snd (detectAndGroupSeries table books this)) =
              detectAndGroupSeries table books this) \<and>
         seriesGroups (fst (detectAndGroupSeries table books' (clearCache this))) =
           seriesGroups (fst (detectAndGroupSeries table books' (newSeriesManager 0))) \<and>
         bookToSeriesMap (fst (detectAndGroupSeries table books' (clearCache this))) =
           bookToSeriesMap (fst (detectAndGroupSeries table books' (newSeriesManager 0))) \<and>
         seriesGroupsRef (fst (detectAndGroupSeries table books' (clearCache this))) \<noteq>
           seriesGroupsRef this \<and>
         bookToSeriesMapRef (fst (detectAndGroupSeries table books' (clearCache this))) \<noteq>
           bookToSeriesMapRef this"
proof -
  let ?D = "detectAndGroupSeries table books this"
  have again: "detectAndGroupSeries table books' (snd ?D) = ?D"
    if ne: "seriesGroups (fst ?D) \<noteq> []"
  proof -
    have valid: "cacheValid (snd ?D)" by (rule detect_after)
    from ne have "seriesGroups (snd ?D) \<noteq> []" by (simp add: detect_fst truncate_fields)
    with valid have "detectAndGroupSeries table books' (snd ?D) =
                     (seriesCache.truncate (snd ?D), snd ?D)"
      by (rule detect_hit)
    also have "\<dots> = ?D" using detect_fst [of table books this] by (simp add: prod_eq_iff)
    finally show ?thesis .
  qed
  from assms have refs: "seriesGroupsRef this < nextRef this" "bookToSeriesMapRef this < nextRef this"
    using reachable_refs by blast+
  have next': "nextRef (clearCache this) = nextRef this + 2" by (simp add: clearCache_def)
  note c = detect_miss [OF clearCache_miss, of table books' this]
  note n = detect_miss [OF newSeriesManager_miss, of table books' 0]
  have "seriesGroups (fst (detectAndGroupSeries table books' (clearCache this))) =
        seriesGroups (fst (detectAndGroupSeries table books' (newSeriesManager 0)))"
    by (simp add: detect_fst truncate_fields c n)
  moreover have "bookToSeriesMap (fst (detectAndGroupSeries table books' (clearCache this))) =
        bookToSeriesMap (fst (detectAndGroupSeries table books' (newSeriesManager 0)))"
    by (simp add: detect_fst truncate_fields c n)
  moreover have "seriesGroupsRef (fst (detectAndGroupSeries table books' (clearCache this))) \<noteq>
        seriesGroupsRef this"
    using refs(1) by (simp add: detect_fst truncate_fields c next')
  moreover have "bookToSeriesMapRef (fst (detectAndGroupSeries table books' (clearCache this))) \<noteq>
        bookToSeriesMapRef this"
    using refs(2) by (simp add: detect_fst truncate_fields c next')
  ultimately show ?thesis using again by blast
qed

theorem detectAndGroupSeries_memoized_nonempty_witness:
  "detectAndGroupSeries noTable []
     (snd (detectAndGroupSeries noTable exampleBooks (newSeriesManager 0))) =
     detectAndGroupSeries noTable exampleBooks (newSeriesManager 0) \<and>
   seriesGroups (fst (detectAndGroupSeries noTable exampleBooks (newSeriesManager 0))) =
     [exampleSeries]"
proof -
  have ne: "seriesGroups (fst (detectAndGroupSeries noTable exampleBooks (newSeriesManager 0))) \<noteq> []"
    by (simp add: example_groups)
  from detectAndGroupSeries_memoized_nonempty
         [where table = noTable and books = exampleBooks and books' = "[]", OF example_reachable]
       ne example_groups [of noTable]
  show ?thesis by blast
qed

section \<open>Progress\<close>

text \<open>
  Claim C9: for a series with volumes, \<^verbatim>\<open>getSeriesProgress\<close> returns as total the number of
  volumes, as read the number of volumes whose book has a read status equal to \<^verbatim>\<open>"read"\<close> up
  to case, and as unread the difference, which is not negative; for an absent series and for
  one without \<^verbatim>\<open>volumes\<close> it returns zeros and raises nothing. This holds whatever the case
  conversion of the engine is outside ASCII.
\<close>

theorem getSeriesProgress_counts:
  "getSeriesProgress table (WithVolumes vs) =
     \<lparr>total = int (length vs), read = int (readCount vs),
      unread = int (length vs) - int (readCount vs)\<rparr> \<and>
   readCount vs \<le> length vs \<and>
   getSeriesProgress table NoSeries = \<lparr>total = 0, read = 0, unread = 0\<rparr> \<and>
   getSeriesProgress table NoVolumes = \<lparr>total = 0, read = 0, unread = 0\<rparr>"
proof -
  have "foldl (\<lambda>read v. if isRead table (book v) then read + 1 else read) 0 vs = int (readCount vs)"
    unfolding isRead_iff by (simp add: count_fold readCount_def)
  then show ?thesis by (simp add: getSeriesProgress_def Let_def readCount_def)
qed

section \<open>Two titles of one series, and the series with the empty identifier\<close>

text \<open>
  Claim C6: two books titled as the series name, a colon, 27 and a subtitle, and as the series
  name, \<^verbatim>\<open>(28)\<close> and a subtitle, both with authors, are put into one SeriesInfo by
  \<^verbatim>\<open>detectAndGroupSeries\<close>, with the volume numbers 27 and 28: both titles give the same series
  identifier.
\<close>

theorem colon_and_paren_titles_grouped:
  assumes "title b1 = Some colonTitle" and "authors b1 = Some a1" and "a1 \<noteq> []"
      and "title b2 = Some parenTitle" and "authors b2 = Some a2" and "a2 \<noteq> []"
      and "\<not> (cacheValid this \<and> seriesGroups this \<noteq> [])"
  shows "seriesGroups (fst (detectAndGroupSeries table [b1, b2] this)) =
           [\<lparr>seriesId = exampleSeriesId, seriesName = exampleSeriesName, seriesAuthors = a1,
             volumes = [\<lparr>book = b1, volumeNumber = Some 27\<rparr>,
                        \<lparr>book = b2, volumeNumber = Some 28\<rparr>],
             representativeBook = b1, totalVolumes = 2\<rparr>] \<and>
         fst (extractVolumeNumber colonTitle) = Some 27 \<and>
         fst (extractVolumeNumber parenTitle) = Some 28 \<and>
         generateSeriesId table (snd (extractVolumeNumber colonTitle)) a1 =
           generateSeriesId table (snd (extractVolumeNumber parenTitle)) a2"
proof -
  have c1: "candidate table b1 = Some (exampleSeriesId, exampleSeriesName, a1, 27)"
    using candidate_titled [OF assms(1,2,3) _ extract_colonTitle]
    by (simp add: normalizeForId_exampleSeriesName colonTitle_def)
  have c2: "candidate table b2 = Some (exampleSeriesId, exampleSeriesName, a2, 28)"
    using candidate_titled [OF assms(4,5,6) _ extract_parenTitle]
    by (simp add: normalizeForId_exampleSeriesName parenTitle_def)
  have "seriesGroups (fst (detectAndGroupSeries table [b1, b2] this)) = groupsOf (scan table [b1, b2])"
    by (simp add: detect_fst truncate_fields detect_miss [OF assms(7)])
  then show ?thesis
    by (simp add: groups_pair [OF c1 c2] extract_colonTitle extract_parenTitle
                  generateSeriesId_def)
qed

theorem colon_and_paren_titles_grouped_witness:
  "map seriesId
     (seriesGroups (fst (detectAndGroupSeries noTable
        [exampleBook [0x58] colonTitle, exampleBook [0x59] parenTitle] (newSeriesManager 0)))) =
     [exampleSeriesId] \<and>
   map (\<lambda>si. map volumeNumber (volumes si))
     (seriesGroups (fst (detectAndGroupSeries noTable
        [exampleBook [0x58] colonTitle, exampleBook [0x59] parenTitle] (newSeriesManager 0)))) =
     [[Some 27, Some 28]]"
  using colon_and_paren_titles_grouped
          [of "exampleBook [0x58] colonTitle" "[0x41]" "exampleBook [0x59] parenTitle" "[0x41]"
              "newSeriesManager 0" noTable]
  by (simp add: exampleBook_def newSeriesManager_def)

text \<open>The example of the claim that follows: two books titled \<^verbatim>\<open>"~ 1"\<close> and \<^verbatim>\<open>"~ 2"\<close>, both
  with authors, make a series whose name and identifier are the empty string.\<close>

lemma tilde_titles_empty_seriesId:
  assumes "title b1 = Some tildeTitle1" and "authors b1 = Some a1" and "a1 \<noteq> []"
      and "title b2 = Some tildeTitle2" and "authors b2 = Some a2" and "a2 \<noteq> []"
      and "\<not> (cacheValid this \<and> seriesGroups this \<noteq> [])"
  shows "seriesGroups (fst (detectAndGroupSeries table [b1, b2] this)) =
           [\<lparr>seriesId = [], seriesName = [], seriesAuthors = a1,
             volumes = [\<lparr>book = b1, volumeNumber = Some 1\<rparr>,
                        \<lparr>book = b2, volumeNumber = Some 2\<rparr>],
             representativeBook = b1, totalVolumes = 2\<rparr>] \<and>
         bookToSeriesMap (fst (detectAndGroupSeries table [b1, b2] this)) (asin b1) = Some [] \<and>
         bookToSeriesMap (fst (detectAndGroupSeries table [b1, b2] this)) (asin b2) = Some [] \<and>
         getSeriesByBookAsin (snd (detectAndGroupSeries table [b1, b2] this)) (asin b1) = None \<and>
         getSeriesByBookAsin (snd (detectAndGroupSeries table [b1, b2] this)) (asin b2) = None \<and>
         getSeriesById (snd (detectAndGroupSeries table [b1, b2] this)) [] \<noteq> None"
proof -
  have c1: "candidate table b1 = Some ([], [], a1, 1)"
    using candidate_titled [OF assms(1,2,3) _ extract_tildeTitle1]
    by (simp add: normalizeForId_def tildeTitle1_def)
  have c2: "candidate table b2 = Some ([], [], a2, 2)"
    using candidate_titled [OF assms(4,5,6) _ extract_tildeTitle2]
    by (simp add: normalizeForId_def tildeTitle2_def)
  note m = detect_miss [where books = "[b1, b2]" and table = table, OF assms(7)]
  have g: "seriesGroups (snd (detectAndGroupSeries table [b1, b2] this)) =
             [\<lparr>seriesId = [], seriesName = [], seriesAuthors = a1,
               volumes = [\<lparr>book = b1, volumeNumber = Some 1\<rparr>,
                          \<lparr>book = b2, volumeNumber = Some 2\<rparr>],
               representativeBook = b1, totalVolumes = 2\<rparr>]"
    by (simp add: m groups_pair [OF c1 c2])
  have i1: "bookToSeriesMap (snd (detectAndGroupSeries table [b1, b2] this)) (asin b1) = Some []"
    by (simp add: m index_pair [OF c1 c2])
  have i2: "bookToSeriesMap (snd (detectAndGroupSeries table [b1, b2] this)) (asin b2) = Some []"
    by (simp add: m index_pair [OF c1 c2])
  show ?thesis
    by (simp add: detect_fst truncate_fields g i1 i2 getSeriesByBookAsin_def getSeriesById_def)
qed

lemma tildeBooks_groups:
  "map seriesId (seriesGroups (fst (detectAndGroupSeries table tildeBooks (newSeriesManager 0)))) =
     [[]] \<and>
   map volumeIds (seriesGroups (fst (detectAndGroupSeries table tildeBooks (newSeriesManager 0)))) =
     [{[0x58], [0x59]}]"
  using tilde_titles_empty_seriesId
          [of "exampleBook [0x58] tildeTitle1" "[0x41]" "exampleBook [0x59] tildeTitle2" "[0x41]"
              "newSeriesManager 0" table]
  by (simp add: tildeBooks_def exampleBook_def newSeriesManager_def volumeIds_def)

text \<open>
  Claim C10: when at least two books of the scanned input are candidates whose series name
  normalizes to the empty string under identifier normalization (the entries of
  \<open>bucketOf table []\<close>; the titles \<^verbatim>\<open>"~ 1"\<close> and \<^verbatim>\<open>"~ 2"\<close> are an example),
  \<^verbatim>\<open>detectAndGroupSeries\<close> emits a SeriesInfo with \<^verbatim>\<open>seriesId\<close> \<^verbatim>\<open>""\<close> that has these books; and
  for every book of a SeriesInfo with \<^verbatim>\<open>seriesId\<close> \<^verbatim>\<open>""\<close> the index maps the identifier of the
  book to \<^verbatim>\<open>""\<close> and \<^verbatim>\<open>getSeriesByBookAsin\<close> returns \<^verbatim>\<open>null\<close>, because \<^verbatim>\<open>!seriesId\<close> holds of the
  empty string. The inputs are those of the specification, in which no two books share their
  identifier.
\<close>

theorem empty_seriesId_lookup_null:
  assumes "reachable table distinctIds this" and "distinctIds books"
  shows "\<exists>scanned.
           (scanned = books \<or> (cacheValid this \<and> seriesGroups this \<noteq> [])) \<and>
           (2 \<le> length (bucketOf table [] scanned) \<longrightarrow>
              (\<exists>si \<in> set (seriesGroups (fst (detectAndGroupSeries table books this))).
                 seriesId si = [] \<and>
                 volumeIds si = asin ` book ` set (bucketOf table [] scanned))) \<and>
           (\<forall>si \<in> set (seriesGroups (fst (detectAndGroupSeries table books this))).
              seriesId si = [] \<longrightarrow>
              (\<forall>a \<in> volumeIds si.
                 bookToSeriesMap (fst (detectAndGroupSeries table books this)) a = Some [] \<and>
                 getSeriesByBookAsin (snd (detectAndGroupSeries table books this)) a = None))"
proof -
  let ?D = "detectAndGroupSeries table books this"
  from detect_result [OF assms] obtain bs where
    bs: "distinctIds bs" and
    sc: "bs = books \<or> (cacheValid this \<and> seriesGroups this \<noteq> [])" and
    g: "seriesGroups (fst ?D) = groupsOf (scan table bs)" and
    ix: "bookToSeriesMap (fst ?D) = indexInto Map.empty (scan table bs)" by auto
  have emitted: "\<exists>si \<in> set (seriesGroups (fst ?D)).
                   seriesId si = [] \<and> volumeIds si = asin ` book ` set (bucketOf table [] bs)"
    if "2 \<le> length (bucketOf table [] bs)"
    unfolding g using that by (rule scanned_bucket_series)
  have lookup: "bookToSeriesMap (fst ?D) a = Some [] \<and> getSeriesByBookAsin (snd ?D) a = None"
    if "si \<in> set (seriesGroups (fst ?D))" "seriesId si = []" "a \<in> volumeIds si" for si a
  proof -
    from that(1) have "si \<in> set (groupsOf (scan table bs))" by (simp add: g)
    from scanned_index(2) [OF bs this that(3)] that(2)
    have i: "bookToSeriesMap (fst ?D) a = Some []" by (simp add: ix)
    then have "getSeriesByBookAsin (snd ?D) a = None"
      by (simp add: getSeriesByBookAsin_def detect_snd_index)
    with i show ?thesis by simp
  qed
  from sc emitted lookup show ?thesis by blast
qed

theorem empty_seriesId_lookup_null_witness:
  "distinctIds tildeBooks \<and>
   map seriesId
     (seriesGroups (fst (detectAndGroupSeries noTable tildeBooks (newSeriesManager 0)))) = [[]] \<and>
   bookToSeriesMap (fst (detectAndGroupSeries noTable tildeBooks (newSeriesManager 0))) [0x58] =
     Some [] \<and>
   getSeriesByBookAsin (snd (detectAndGroupSeries noTable tildeBooks (newSeriesManager 0))) [0x58] =
     None \<and>
   bookToSeriesMap (fst (detectAndGroupSeries noTable tildeBooks (newSeriesManager 0))) [0x59] =
     Some [] \<and>
   getSeriesByBookAsin (snd (detectAndGroupSeries noTable tildeBooks (newSeriesManager 0))) [0x59] =
     None"
proof -
  have d: "distinctIds tildeBooks" by code_simp
  from tildeBooks_groups [of noTable] obtain si where
    g: "seriesGroups (fst (detectAndGroupSeries noTable tildeBooks (newSeriesManager 0))) = [si]"
    and si: "seriesId si = []" "volumeIds si = {[0x58], [0x59]}"
    by (cases "seriesGroups (fst (detectAndGroupSeries noTable tildeBooks (newSeriesManager 0)))")
       auto
  from empty_seriesId_lookup_null [where table = noTable, OF example_reachable d] g si d
  show ?thesis by auto
qed

end
